theory Spec2Isabelle
  imports Main "HOL-Library.Sublist" "HOL-Library.Word"
begin

section \<open>Text\<close>

text \<open>
  A command line is a Python \<^verbatim>\<open>str\<close>. It is modelled as a \<^typ>\<open>string\<close>: a list of
  characters whose code points range over 0..255 (the Latin-1 part of Unicode).
  The character classes below are those of CPython on that range.
\<close>

definition ord :: "char \<Rightarrow> nat" where
  "ord c = of_char c"

definition chr :: "nat \<Rightarrow> char" where
  "chr n = char_of n"

definition py_isspace :: "char \<Rightarrow> bool" where
  \<comment> \<open>\<^verbatim>\<open>str.isspace\<close>: what \<^verbatim>\<open>strip()\<close> and \<^verbatim>\<open>split()\<close> remove\<close>
  "py_isspace c = (let n = ord c in
     (9 \<le> n \<and> n \<le> 13) \<or> (28 \<le> n \<and> n \<le> 32) \<or> n = 133 \<or> n = 160)"

definition lower_char :: "char \<Rightarrow> char" where
  \<comment> \<open>\<^verbatim>\<open>str.lower\<close> on one character: A-Z, and the Latin-1 capitals except the
      multiplication sign\<close>
  "lower_char c = (let n = ord c in
     if (65 \<le> n \<and> n \<le> 90) \<or> (192 \<le> n \<and> n \<le> 222 \<and> n \<noteq> 215) then chr (n + 32) else c)"

definition lower :: "string \<Rightarrow> string" where
  "lower s = map lower_char s"

definition strip :: "string \<Rightarrow> string" where
  "strip s = rev (dropWhile py_isspace (rev (dropWhile py_isspace s)))"

definition startswith :: "string \<Rightarrow> string \<Rightarrow> bool" where
  "startswith s p = prefix p s"

definition endswith :: "string \<Rightarrow> string \<Rightarrow> bool" where
  "endswith s p = prefix (rev p) (rev s)"

text \<open>\<^verbatim>\<open>pat in txt\<close>: the pattern occurs at some position of the text.\<close>

fun str_contains :: "string \<Rightarrow> string \<Rightarrow> bool" where
  "str_contains pat [] = (pat = [])"
| "str_contains pat (c # cs) = (prefix pat (c # cs) \<or> str_contains pat cs)"

text \<open>\<^verbatim>\<open>s.split()\<close>: the maximal runs of non-whitespace characters.\<close>

fun split_ws :: "string \<Rightarrow> string \<Rightarrow> string list" where
  "split_ws acc [] = (if acc = [] then [] else [acc])"
| "split_ws acc (c # cs) =
     (if py_isspace c then (if acc = [] then split_ws [] cs else acc # split_ws [] cs)
      else split_ws (acc @ [c]) cs)"

definition py_split :: "string \<Rightarrow> string list" where
  "py_split s = split_ws [] s"

section \<open>Exceptions\<close>

text \<open>
  The exceptions that the functions below raise or pass on. \<^verbatim>\<open>OSError\<close> stands for that
  class and its subclasses other than \<^verbatim>\<open>ProcessLookupError\<close>. A function that can raise
  returns a sum: \<open>Inl\<close> the exception, \<open>Inr\<close> the value.
\<close>

datatype py_error =
  ValueError | TypeError | RuntimeError | OSError | ProcessLookupError | UnicodeEncodeError

definition has_nul :: "string \<Rightarrow> bool" where
  \<comment> \<open>a string with a NUL character: the operating system's calls refuse it with
      \<^verbatim>\<open>ValueError\<close> (embedded null byte)\<close>
  "has_nul s = (CHR 0x00 \<in> set s)"

section \<open>shlex.split\<close>

text \<open>
  \<^verbatim>\<open>shlex.split(cmd)\<close> runs the standard library's lexer in POSIX mode with
  \<^verbatim>\<open>whitespace_split\<close> set and no comment characters. The lexer is a state machine over
  the characters of the input; its state is a character: a blank between tokens,
  \<^verbatim>\<open>a\<close> inside a word, a quote character inside a quoted part, the backslash after an
  escape. \<^verbatim>\<open>ValueError\<close> (an unclosed quote, a trailing backslash) is \<^const>\<open>None\<close>.
\<close>

definition shlex_whitespace :: "char \<Rightarrow> bool" where
  "shlex_whitespace c = (c \<in> set [CHR '' '', CHR 0x09, CHR 0x0D, CHR 0x0A])"

definition shlex_quotes :: "char \<Rightarrow> bool" where
  "shlex_quotes c = (c = CHR 0x27 \<or> c = CHR 0x22)"

definition shlex_escape :: "char \<Rightarrow> bool" where
  "shlex_escape c = (c = CHR 0x5C)"

definition shlex_escapedquotes :: "char \<Rightarrow> bool" where
  "shlex_escapedquotes c = (c = CHR 0x22)"

definition shlex_wordchars :: "char \<Rightarrow> bool" where
  "shlex_wordchars c = (let n = ord c in
     (97 \<le> n \<and> n \<le> 122) \<or> (65 \<le> n \<and> n \<le> 90) \<or> (48 \<le> n \<and> n \<le> 57) \<or> n = 95
     \<or> (192 \<le> n \<and> n \<le> 255 \<and> n \<noteq> 215 \<and> n \<noteq> 247))"

definition emit_token :: "string \<Rightarrow> string list option \<Rightarrow> string list option" where
  "emit_token tok rest = map_option ((#) tok) rest"

text \<open>
  The arguments are the lexer's \<^verbatim>\<open>state\<close>, \<^verbatim>\<open>escapedstate\<close>, \<^verbatim>\<open>quoted\<close> and \<^verbatim>\<open>token\<close>,
  then the unread input. A token is emitted where \<^verbatim>\<open>read_token\<close> breaks out of its
  loop; the next call starts with \<^verbatim>\<open>quoted\<close> false, \<^verbatim>\<open>escapedstate\<close> blank and an empty
  token. At the end of the input a last token is returned unless it is empty and
  unquoted.
\<close>

fun read_token :: "char \<Rightarrow> char \<Rightarrow> bool \<Rightarrow> string \<Rightarrow> string \<Rightarrow> string list option" where
  "read_token st esc quoted tok [] =
     (if st = CHR '' '' then Some (if \<not> quoted \<and> tok = [] then [] else [tok])
      else if shlex_quotes st then None
      else if shlex_escape st then None
      else Some (if \<not> quoted \<and> tok = [] then [] else [tok]))"
| "read_token st esc quoted tok (c # cs) =
     (if st = CHR '' '' then
        (if shlex_whitespace c then
           (if tok \<noteq> [] \<or> quoted
            then emit_token tok (read_token CHR '' '' CHR '' '' False [] cs)
            else read_token st esc quoted tok cs)
         else if shlex_escape c then read_token c CHR ''a'' quoted tok cs
         else if shlex_wordchars c then read_token CHR ''a'' esc quoted [c] cs
         else if shlex_quotes c then read_token c esc quoted tok cs
         else read_token CHR ''a'' esc quoted [c] cs)
      else if shlex_quotes st then
        (if c = st then read_token CHR ''a'' esc True tok cs
         else if shlex_escape c \<and> shlex_escapedquotes st then read_token c st True tok cs
         else read_token st esc True (tok @ [c]) cs)
      else if shlex_escape st then
        (if shlex_quotes esc \<and> c \<noteq> st \<and> c \<noteq> esc
         then read_token esc esc quoted (tok @ [st] @ [c]) cs
         else read_token esc esc quoted (tok @ [c]) cs)
      else
        (if shlex_whitespace c then
           (if tok \<noteq> [] \<or> quoted
            then emit_token tok (read_token CHR '' '' CHR '' '' False [] cs)
            else read_token CHR '' '' esc quoted tok cs)
         else if shlex_quotes c then read_token c esc quoted tok cs
         else if shlex_escape c then read_token c CHR ''a'' quoted tok cs
         else read_token st esc quoted (tok @ [c]) cs))"

definition shlex_split :: "string \<Rightarrow> string list option" where
  "shlex_split s = read_token CHR '' '' CHR '' '' False [] s"

section \<open>Guardrail classifier\<close>

datatype risk = Low | Medium

definition LOW_READONLY_BINARIES :: "string list" where
  "LOW_READONLY_BINARIES =
     [''echo'', ''cat'', ''head'', ''tail'', ''ls'', ''stat'', ''file'', ''strings'', ''sha256sum'',
      ''curl'', ''wget'', ''dig'', ''nslookup'', ''whois'', ''openssl'']"

definition DENY_PATTERNS :: "string list" where
  "DENY_PATTERNS =
     [''rm -rf'', ''mkfs'', ''dd of=/dev'', ''reboot'', ''shutdown'',
      ''nc -e'', ''bash -i >&'', ''chmod -R 777 /'']"

definition head_token :: "string \<Rightarrow> string" where
  \<comment> \<open>the \<^verbatim>\<open>try\<close> block of \<^verbatim>\<open>classify_and_check\<close>: the first shlex token, or on
      \<^verbatim>\<open>ValueError\<close> the first whitespace-separated word; empty when there is none\<close>
  "head_token cmd =
     (case shlex_split cmd of
        Some parts \<Rightarrow> (case parts of [] \<Rightarrow> [] | p # _ \<Rightarrow> p)
      | None \<Rightarrow> (case py_split cmd of [] \<Rightarrow> [] | p # _ \<Rightarrow> p))"

definition classify_and_check :: "string \<Rightarrow> risk \<times> bool \<times> string" where
  "classify_and_check cmd =
     (let txt = lower (strip cmd) in
      case find (\<lambda>pat. str_contains pat txt) DENY_PATTERNS of
        Some pat \<Rightarrow> (Medium, False, ''Denied pattern: '' @ pat)
      | None \<Rightarrow>
         (let head = head_token cmd in
          if head = ''curl'' then
            (if str_contains '' -I'' cmd \<or> str_contains '' --head'' cmd
             then (Low, True, ''curl with --head/-I (metadata only)'')
             else (Medium, False, ''curl without --head/-I is not read-only safe by default''))
          else if head = ''wget'' then
            (if str_contains '' --spider'' cmd
             then (Low, True, ''wget --spider (metadata only)'')
             else (Medium, False, ''wget without --spider is not read-only safe by default''))
          else if head \<in> set LOW_READONLY_BINARIES then
            (Low, True, head @ '' considered read-only (MVP allowlist)'')
          else (Medium, False, (if head = [] then ''command'' else head) @ '' requires approval'')))"

section \<open>Sessions\<close>

record scope =
  cidrs :: "string list"
  domains :: "string list"
  hosts :: "string list"
  paths :: "string list"
  out_of_scope :: "string list"

record roe =
  rate_limit_per_sec :: "int option"
  time_window :: "(string \<times> string) option"
  no_touch :: "string list"
  roe_notes :: "string option"

text \<open>
  The mode is compared as a string by the authorizer, so it is a string here; the four
  modes of the type \<^verbatim>\<open>Mode\<close> are \<^verbatim>\<open>PLAN_ONLY\<close>, \<^verbatim>\<open>EXECUTE_WITH_APPROVAL\<close>,
  \<^verbatim>\<open>AUTO_READONLY\<close> and \<^verbatim>\<open>SIMULATE\<close>.
\<close>

record session_config =
  authorization_doc :: string
  scope :: scope
  roe :: roe
  mode :: string
  output_dir :: string
  kill_switch :: string

section \<open>Scope resolver\<close>

subsection \<open>The three target patterns\<close>

definition is_digit :: "char \<Rightarrow> bool" where
  \<comment> \<open>\<^verbatim>\<open>\d\<close>\<close>
  "is_digit c = (let n = ord c in 48 \<le> n \<and> n \<le> 57)"

definition is_alpha :: "char \<Rightarrow> bool" where
  \<comment> \<open>\<^verbatim>\<open>[a-zA-Z]\<close>\<close>
  "is_alpha c = (let n = ord c in (97 \<le> n \<and> n \<le> 122) \<or> (65 \<le> n \<and> n \<le> 90))"

definition is_hostchar :: "char \<Rightarrow> bool" where
  \<comment> \<open>\<^verbatim>\<open>[a-zA-Z0-9.-]\<close>\<close>
  "is_hostchar c = (is_alpha c \<or> is_digit c \<or> c = CHR ''.'' \<or> c = CHR ''-'')"

definition is_word :: "char \<Rightarrow> bool" where
  \<comment> \<open>\<^verbatim>\<open>\w\<close>, which decides \<^verbatim>\<open>\b\<close>: alphanumeric characters and the underscore\<close>
  "is_word c = (let n = ord c in
     is_alpha c \<or> is_digit c \<or> n = 95 \<or> n = 170 \<or> n = 178 \<or> n = 179 \<or> n = 181 \<or> n = 185
     \<or> n = 186 \<or> n = 188 \<or> n = 189 \<or> n = 190
     \<or> (192 \<le> n \<and> n \<le> 255 \<and> n \<noteq> 215 \<and> n \<noteq> 247))"

definition boundary :: "char option \<Rightarrow> char option \<Rightarrow> bool" where
  \<comment> \<open>\<^verbatim>\<open>\b\<close> between the character before and the character after a position
      (\<^const>\<open>None\<close> at either end of the text)\<close>
  "boundary prev nxt =
     ((case prev of None \<Rightarrow> False | Some c \<Rightarrow> is_word c)
      \<noteq> (case nxt of None \<Rightarrow> False | Some c \<Rightarrow> is_word c))"

definition first_char :: "string \<Rightarrow> char option" where
  "first_char s = (case s of [] \<Rightarrow> None | c # _ \<Rightarrow> Some c)"

text \<open>
  \<^verbatim>\<open>\.[a-zA-Z]{2,}\<close> at the head of \<open>s\<close>, followed by \<^verbatim>\<open>\b\<close> when \<open>wb\<close> is set; the
  result is the number of characters matched. The letters are matched greedily. No
  shorter run of letters can match when the longest does not: without \<^verbatim>\<open>\b\<close> the
  longest run always matches, and with it a shorter run ends between two letters,
  where there is no word boundary.
\<close>

definition match_tld :: "bool \<Rightarrow> string \<Rightarrow> nat option" where
  "match_tld wb s =
     (case s of
        [] \<Rightarrow> None
      | c # r \<Rightarrow>
          if c \<noteq> CHR ''.'' then None
          else (let m = length (takeWhile is_alpha r) in
                if m < 2 then None
                else if wb \<and> \<not> boundary (Some (r ! (m - 1))) (first_char (drop m r)) then None
                else Some (Suc m)))"

text \<open>
  \<^verbatim>\<open>[a-zA-Z0-9.-]+\<close> is greedy and gives characters back one at a time: with the
  first \<open>Suc j\<close> characters taken by it, the rest of the pattern is tried, for \<open>Suc j\<close>
  from the length of the run of host characters down to one.
\<close>

fun match_host_from :: "bool \<Rightarrow> string \<Rightarrow> nat \<Rightarrow> nat option" where
  "match_host_from wb s 0 = None"
| "match_host_from wb s (Suc j) =
     (case match_tld wb (drop (Suc j) s) of
        Some n \<Rightarrow> Some (Suc j + n)
      | None \<Rightarrow> match_host_from wb s j)"

definition match_host :: "bool \<Rightarrow> string \<Rightarrow> nat option" where
  \<comment> \<open>\<^verbatim>\<open>[a-zA-Z0-9.-]+\.[a-zA-Z]{2,}\<close> at the head of \<open>s\<close>: the length of the match\<close>
  "match_host wb s = match_host_from wb s (length (takeWhile is_hostchar s))"

text \<open>
  \<^verbatim>\<open>findall\<close> scans from left to right; after a match it goes on at the end of that
  match. \<open>skip\<close> counts the characters of the last match that are still to be passed,
  \<open>prev\<close> is the character before the position.
\<close>

fun findall_host :: "char option \<Rightarrow> nat \<Rightarrow> string \<Rightarrow> string list" where
  \<comment> \<open>\<^verbatim>\<open>HOST_RE = \b([a-zA-Z0-9.-]+\.[a-zA-Z]{2,})\b\<close>\<close>
  "findall_host prev skip [] = []"
| "findall_host prev (Suc k) (c # cs) = findall_host (Some c) k cs"
| "findall_host prev 0 (c # cs) =
     (if boundary prev (Some c) then
        (case match_host True (c # cs) of
           Some n \<Rightarrow> take n (c # cs) # findall_host (Some c) (n - 1) cs
         | None \<Rightarrow> findall_host (Some c) 0 cs)
      else findall_host (Some c) 0 cs)"

definition match_url :: "string \<Rightarrow> (nat \<times> string) option" where
  \<comment> \<open>\<^verbatim>\<open>URL_RE = https?://([a-zA-Z0-9.-]+\.[a-zA-Z]{2,})\<close> at the head of \<open>s\<close>: the length
      of the match and its group\<close>
  "match_url s =
     (let k = (if prefix ''https://'' s then 8 else if prefix ''http://'' s then 7 else 0) in
      if k = 0 then None
      else (case match_host False (drop k s) of
              None \<Rightarrow> None
            | Some n \<Rightarrow> Some (k + n, take n (drop k s))))"

fun findall_url :: "nat \<Rightarrow> string \<Rightarrow> string list" where
  "findall_url skip [] = []"
| "findall_url (Suc k) (c # cs) = findall_url k cs"
| "findall_url 0 (c # cs) =
     (case match_url (c # cs) of
        Some (n, g) \<Rightarrow> g # findall_url (n - 1) cs
      | None \<Rightarrow> findall_url 0 cs)"

text \<open>
  \<^verbatim>\<open>\d{1,3}\.\<close> and \<^verbatim>\<open>\d{1,3}\b\<close>: up to three digits are taken greedily. When the run of
  digits is longer than three, or is not followed by the dot (by a word boundary), taking
  fewer digits leaves a digit next, which is neither; so the run matches whole or not at
  all.
\<close>

definition match_octet_dot :: "string \<Rightarrow> nat option" where
  "match_octet_dot s =
     (let d = length (takeWhile is_digit s) in
      if 1 \<le> d \<and> d \<le> 3 \<and> first_char (drop d s) = Some CHR ''.'' then Some (Suc d) else None)"

definition match_octet_end :: "string \<Rightarrow> nat option" where
  "match_octet_end s =
     (let d = length (takeWhile is_digit s) in
      if 1 \<le> d \<and> d \<le> 3 \<and> boundary (Some (s ! (d - 1))) (first_char (drop d s))
      then Some d else None)"

definition match_ip :: "string \<Rightarrow> nat option" where
  \<comment> \<open>\<^verbatim>\<open>(?:(?:\d{1,3}\.){3}\d{1,3})\b\<close> at the head of \<open>s\<close>\<close>
  "match_ip s =
     (case match_octet_dot s of None \<Rightarrow> None | Some a \<Rightarrow>
       (case match_octet_dot (drop a s) of None \<Rightarrow> None | Some b \<Rightarrow>
         (case match_octet_dot (drop (a + b) s) of None \<Rightarrow> None | Some c \<Rightarrow>
           (case match_octet_end (drop (a + b + c) s) of None \<Rightarrow> None | Some d \<Rightarrow>
              Some (a + b + c + d)))))"

fun findall_ip :: "char option \<Rightarrow> nat \<Rightarrow> string \<Rightarrow> string list" where
  \<comment> \<open>\<^verbatim>\<open>IP_RE = \b(?:(?:\d{1,3}\.){3}\d{1,3})\b\<close>\<close>
  "findall_ip prev skip [] = []"
| "findall_ip prev (Suc k) (c # cs) = findall_ip (Some c) k cs"
| "findall_ip prev 0 (c # cs) =
     (if boundary prev (Some c) then
        (case match_ip (c # cs) of
           Some n \<Rightarrow> take n (c # cs) # findall_ip (Some c) (n - 1) cs
         | None \<Rightarrow> findall_ip (Some c) 0 cs)
      else findall_ip (Some c) 0 cs)"

subsection \<open>Targets and paths of a command\<close>

text \<open>
  \<^verbatim>\<open>_extract_targets\<close> collects the matches of the three patterns in a set. The order
  of a Python set is not specified; the list here has each target once, in the order
  of its first match, and the resolver only asks which targets are in it.
\<close>

definition extract_targets :: "string \<Rightarrow> string list" where
  "extract_targets cmd =
     remdups (findall_url 0 cmd @ findall_host None 0 cmd @ findall_ip None 0 cmd)"

definition extract_paths :: "string \<Rightarrow> string list" where
  \<comment> \<open>\<^verbatim>\<open>_extract_paths\<close>: the tokens that start with a slash\<close>
  "extract_paths cmd =
     (let tokens = (case shlex_split cmd of Some ts \<Rightarrow> ts | None \<Rightarrow> py_split cmd)
      in remdups (filter (\<lambda>tok. startswith tok ''/'') tokens))"

subsection \<open>The check\<close>

datatype scope_reason =
    TargetOutOfScope "string set"  \<comment> \<open>\<^verbatim>\<open>Target {targets & disallowed} is explicitly out-of-scope.\<close>\<close>
  | NoTargetAllowed "string set"  \<comment> \<open>\<^verbatim>\<open>No referenced target {targets} is in allowed domains/hosts.\<close>\<close>
  | PathNotAllowed string "string list"  \<comment> \<open>\<^verbatim>\<open>Absolute path {ap} not under allowed roots {paths}\<close>\<close>
  | InScope  \<comment> \<open>\<^verbatim>\<open>In scope\<close>\<close>

definition target_allowed :: "scope \<Rightarrow> string \<Rightarrow> bool" where
  \<comment> \<open>a target that equals an allowed domain, or ends with a dot and an allowed domain, or
      is an allowed host\<close>
  "target_allowed sc t =
     (list_ex (\<lambda>allow. allow = t \<or> endswith t (''.'' @ allow)) (domains sc) \<or> t \<in> set (hosts sc))"

text \<open>
  \<^verbatim>\<open>str(Path(p).resolve())\<close> asks the file system. A path with a NUL character is refused
  with \<^verbatim>\<open>ValueError\<close> whatever the file system holds. For any other path the file
  system's answer is a parameter: the resolved path, or the exception raised
  (\<^verbatim>\<open>RuntimeError\<close> for a loop of symbolic links, \<^verbatim>\<open>OSError\<close> otherwise). The absolute
  paths of a command are a Python set, iterated in an order that the interpreter
  decides: \<open>set_order\<close> gives the order in which the set of the given strings is iterated
  (in every run, the given strings in some order).
\<close>

record platform =
  fs_resolve :: "string \<Rightarrow> py_error + string"
  set_order :: "string list \<Rightarrow> string list"

definition resolve_path :: "platform \<Rightarrow> string \<Rightarrow> py_error + string" where
  "resolve_path pf p = (if has_nul p then Inl ValueError else fs_resolve pf p)"

fun resolve_roots :: "platform \<Rightarrow> string list \<Rightarrow> py_error + string list" where
  \<comment> \<open>\<^verbatim>\<open>[Path(p).resolve() for p in cfg.scope.paths]\<close>\<close>
  "resolve_roots pf [] = Inr []"
| "resolve_roots pf (p # ps) =
     (case resolve_path pf p of
        Inl e \<Rightarrow> Inl e
      | Inr root \<Rightarrow>
         (case resolve_roots pf ps of Inl e \<Rightarrow> Inl e | Inr roots \<Rightarrow> Inr (root # roots)))"

fun check_paths :: "platform \<Rightarrow> string list \<Rightarrow> string list \<Rightarrow> py_error + string option" where
  \<comment> \<open>the loop over the absolute paths: the first path that resolves to a place under
      none of the roots, if the loop reaches one\<close>
  "check_paths pf roots [] = Inr None"
| "check_paths pf roots (ap # aps) =
     (case resolve_path pf ap of
        Inl e \<Rightarrow> Inl e
      | Inr rp \<Rightarrow>
         if \<not> list_ex (\<lambda>root. startswith rp root) roots then Inr (Some ap)
         else check_paths pf roots aps)"

text \<open>
  The targets are checked first: a command rejected for its targets returns before any
  path is resolved. The roots are resolved only when the command has an absolute path,
  and an exception of \<^verbatim>\<open>resolve\<close> is not caught.
\<close>

definition in_scope_command ::
  "platform \<Rightarrow> session_config \<Rightarrow> string \<Rightarrow> py_error + (bool \<times> scope_reason)" where
  "in_scope_command pf cfg cmd =
     (let targets = extract_targets cmd;
          disallowed = set (out_of_scope (scope cfg)) in
      if targets \<noteq> [] \<and> list_ex (\<lambda>t. t \<in> disallowed) targets then
        Inr (False, TargetOutOfScope (set targets \<inter> disallowed))
      else if targets \<noteq> [] \<and> \<not> list_ex (target_allowed (scope cfg)) targets then
        Inr (False, NoTargetAllowed (set targets))
      else
        (let abs_paths = extract_paths cmd in
         if abs_paths = [] then Inr (True, InScope)
         else
           (case resolve_roots pf (paths (scope cfg)) of
              Inl e \<Rightarrow> Inl e
            | Inr allowed_roots \<Rightarrow>
               (case check_paths pf allowed_roots (set_order pf abs_paths) of
                  Inl e \<Rightarrow> Inl e
                | Inr (Some ap) \<Rightarrow> Inr (False, PathNotAllowed ap (paths (scope cfg)))
                | Inr None \<Rightarrow> Inr (True, InScope)))))"

section \<open>Mode authorizer\<close>

datatype decision_reason =
    OutOfScope scope_reason  \<comment> \<open>\<^verbatim>\<open>Out of scope: {scope_reason}\<close>\<close>
  | ModeForbids string  \<comment> \<open>\<^verbatim>\<open>Mode={cfg.mode} forbids execution\<close>\<close>
  | AllowedAutoReadonly string  \<comment> \<open>\<^verbatim>\<open>Allowed in AUTO_READONLY: {why}\<close>\<close>
  | NeedsApprovalAutoReadonly string  \<comment> \<open>\<^verbatim>\<open>Needs approval in AUTO_READONLY: {why}\<close>\<close>
  | ApprovalRequired string  \<comment> \<open>\<^verbatim>\<open>Approval required: {why}\<close>\<close>
  | UnknownMode  \<comment> \<open>\<^verbatim>\<open>Unknown mode\<close>\<close>

text \<open>
  The result is \<^verbatim>\<open>(allow_execute, needs_approval, reason)\<close>; an exception of the scope
  check is passed on.
\<close>

definition enforce ::
  "platform \<Rightarrow> session_config \<Rightarrow> string \<Rightarrow> py_error + (bool \<times> bool \<times> decision_reason)" where
  "enforce pf cfg cmd =
     (case classify_and_check cmd of (risk, readonly_ok, why) \<Rightarrow>
      case in_scope_command pf cfg cmd of
        Inl e \<Rightarrow> Inl e
      | Inr (scope_ok, scope_reason) \<Rightarrow>
         if \<not> scope_ok then Inr (False, True, OutOfScope scope_reason)
         else if mode cfg = ''PLAN_ONLY'' \<or> mode cfg = ''SIMULATE'' then
           Inr (False, True, ModeForbids (mode cfg))
         else if mode cfg = ''AUTO_READONLY'' then
           (if risk = Low \<and> readonly_ok then Inr (True, False, AllowedAutoReadonly why)
            else Inr (False, True, NeedsApprovalAutoReadonly why))
         else if mode cfg = ''EXECUTE_WITH_APPROVAL'' then Inr (False, True, ApprovalRequired why)
         else Inr (False, True, UnknownMode))"

section \<open>Captured output\<close>

text \<open>
  The output of a command is decoded from arbitrary bytes, so it is not confined to
  eight-bit characters: a decoded text is the list of its Unicode code points.
\<close>

type_synonym ustring = "nat list"

type_synonym byte = "8 word"

definition lit :: "string \<Rightarrow> ustring" where
  \<comment> \<open>a string literal of the source as a text\<close>
  "lit s = map ord s"

subsection \<open>Decoding\<close>

text \<open>
  \<^verbatim>\<open>out.decode("utf-8", errors="ignore")\<close>. \<open>utf8_first\<close> reads one well-formed UTF-8
  sequence at the head of the bytes: its code point and the number of bytes after the
  first. Where the head byte starts no well-formed sequence, the decoder reports an error
  and the \<^verbatim>\<open>ignore\<close> handler resumes behind the offending bytes with nothing put in their
  place. CPython reports the longest ill-formed prefix as one error; every byte of it
  after the first is a continuation byte, which starts no sequence either, so passing
  over the head byte alone gives the same text.
\<close>

definition is_cont :: "byte \<Rightarrow> bool" where
  "is_cont b = (0x80 \<le> b \<and> b \<le> 0xBF)"

definition cont_bits :: "byte \<Rightarrow> nat" where
  "cont_bits b = unat b - 0x80"

definition utf8_first :: "byte list \<Rightarrow> (nat \<times> nat) option" where
  "utf8_first bs =
     (case bs of
        [] \<Rightarrow> None
      | b0 # r \<Rightarrow>
         if b0 < 0x80 then Some (unat b0, 0)
         else if 0xC2 \<le> b0 \<and> b0 \<le> 0xDF then
           (case r of
              b1 # _ \<Rightarrow>
                if is_cont b1 then Some ((unat b0 - 0xC0) * 64 + cont_bits b1, 1) else None
            | _ \<Rightarrow> None)
         else if 0xE0 \<le> b0 \<and> b0 \<le> 0xEF then
           (case r of
              b1 # b2 # _ \<Rightarrow>
                if is_cont b1 \<and> is_cont b2
                   \<and> (b0 = 0xE0 \<longrightarrow> 0xA0 \<le> b1) \<and> (b0 = 0xED \<longrightarrow> b1 \<le> 0x9F)
                then Some ((unat b0 - 0xE0) * 4096 + cont_bits b1 * 64 + cont_bits b2, 2)
                else None
            | _ \<Rightarrow> None)
         else if 0xF0 \<le> b0 \<and> b0 \<le> 0xF4 then
           (case r of
              b1 # b2 # b3 # _ \<Rightarrow>
                if is_cont b1 \<and> is_cont b2 \<and> is_cont b3
                   \<and> (b0 = 0xF0 \<longrightarrow> 0x90 \<le> b1) \<and> (b0 = 0xF4 \<longrightarrow> b1 \<le> 0x8F)
                then Some ((unat b0 - 0xF0) * 262144 + cont_bits b1 * 4096
                           + cont_bits b2 * 64 + cont_bits b3, 3)
                else None
            | _ \<Rightarrow> None)
         else None)"

function decode_ignore :: "byte list \<Rightarrow> ustring" where
  "decode_ignore [] = []"
| "decode_ignore (b # bs) =
     (case utf8_first (b # bs) of
        Some (cp, n) \<Rightarrow> cp # decode_ignore (drop n bs)
      | None \<Rightarrow> decode_ignore bs)"
  by pat_completeness auto
termination
  by (relation "measure length") auto

subsection \<open>Redaction\<close>

definition is_space :: "nat \<Rightarrow> bool" where
  \<comment> \<open>\<^verbatim>\<open>\s\<close>: the Unicode whitespace characters\<close>
  "is_space c =
     ((9 \<le> c \<and> c \<le> 13) \<or> (28 \<le> c \<and> c \<le> 32) \<or> c = 133 \<or> c = 160 \<or> c = 5760
      \<or> (8192 \<le> c \<and> c \<le> 8202) \<or> c = 8232 \<or> c = 8233 \<or> c = 8239 \<or> c = 8287 \<or> c = 12288)"

definition ci_match :: "nat \<Rightarrow> nat \<Rightarrow> bool" where
  \<comment> \<open>a character \<open>p\<close> of a pattern under \<^verbatim>\<open>(?i)\<close> against a character \<open>c\<close> of the text:
      the two cases of a letter, and the three characters that CPython folds onto
      \<^verbatim>\<open>i\<close>, \<^verbatim>\<open>s\<close> and \<^verbatim>\<open>k\<close> (dotted capital I and dotless i, long s, the Kelvin sign)\<close>
  "ci_match p c =
     (c = p \<or> (97 \<le> p \<and> p \<le> 122 \<and> c + 32 = p)
      \<or> (p = 105 \<and> (c = 304 \<or> c = 305)) \<or> (p = 115 \<and> c = 383) \<or> (p = 107 \<and> c = 8490))"

fun ci_prefix :: "ustring \<Rightarrow> ustring \<Rightarrow> bool" where
  "ci_prefix [] s = True"
| "ci_prefix (p # ps) [] = False"
| "ci_prefix (p # ps) (c # cs) = (ci_match p c \<and> ci_prefix ps cs)"

definition REDACTED :: ustring where
  "REDACTED = lit ''[REDACTED]''"

definition JWT_REDACTED :: ustring where
  "JWT_REDACTED = lit ''[JWT_REDACTED]''"

text \<open>
  A pattern is modelled by its matcher: for the text at a position, the length of the
  match that \<^verbatim>\<open>re\<close> finds there and the replacement for it, or \<^const>\<open>None\<close>.

  \<^verbatim>\<open>(?i)(key\s*)(\S+)\<close> (with \<open>sp\<close>) and \<^verbatim>\<open>(?i)(key)(\S+)\<close> (without), replaced by
  \<^verbatim>\<open>\1[REDACTED]\<close>: the key in either case, all the whitespace after it, then all the
  characters up to the next whitespace, at least one. When no such character follows
  the whitespace there is no match: with less whitespace taken, a whitespace character
  would have to match \<^verbatim>\<open>\S\<close>.
\<close>

definition match_secret :: "bool \<Rightarrow> ustring \<Rightarrow> ustring \<Rightarrow> (nat \<times> ustring) option" where
  "match_secret sp key s =
     (if ci_prefix key s then
        (let k = length key
                 + (if sp then length (takeWhile is_space (drop (length key) s)) else 0);
             v = length (takeWhile (\<lambda>c. \<not> is_space c) (drop k s))
         in if v = 0 then None else Some (k + v, take k s @ REDACTED))
      else None)"

definition is_jwtchar :: "nat \<Rightarrow> bool" where
  \<comment> \<open>\<^verbatim>\<open>[A-Za-z0-9-_]\<close>: letters, digits, the hyphen and the underscore\<close>
  "is_jwtchar c =
     ((65 \<le> c \<and> c \<le> 90) \<or> (97 \<le> c \<and> c \<le> 122) \<or> (48 \<le> c \<and> c \<le> 57) \<or> c = 45 \<or> c = 95)"

text \<open>
  \<^verbatim>\<open>([A-Za-z0-9-_]+\.[A-Za-z0-9-_]+\.[A-Za-z0-9-_]+)\<close>, replaced by \<^verbatim>\<open>[JWT_REDACTED]\<close>.
  The dot is not in the class, so a segment that is followed by a dot is a whole run of
  class characters; the last segment is taken greedily.
\<close>

definition match_jwt :: "ustring \<Rightarrow> (nat \<times> ustring) option" where
  "match_jwt s =
     (let a = length (takeWhile is_jwtchar s) in
      if a = 0 then None
      else (case drop a s of
              [] \<Rightarrow> None
            | d1 # r2 \<Rightarrow>
               if d1 \<noteq> 46 then None
               else (let b = length (takeWhile is_jwtchar r2) in
                     if b = 0 then None
                     else (case drop b r2 of
                             [] \<Rightarrow> None
                           | d2 # r3 \<Rightarrow>
                              if d2 \<noteq> 46 then None
                              else (let c = length (takeWhile is_jwtchar r3) in
                                    if c = 0 then None
                                    else Some (a + 1 + b + 1 + c, JWT_REDACTED))))))"

text \<open>
  \<^verbatim>\<open>re.sub\<close> scans the text from left to right: where the pattern matches, the
  replacement is written and the scan goes on behind the match; elsewhere the character
  is copied. No pattern here matches the empty string.
\<close>

function re_sub :: "(ustring \<Rightarrow> (nat \<times> ustring) option) \<Rightarrow> ustring \<Rightarrow> ustring" where
  "re_sub m [] = []"
| "re_sub m (c # cs) =
     (case m (c # cs) of
        Some (n, r) \<Rightarrow> r @ re_sub m (drop (n - 1) cs)
      | None \<Rightarrow> c # re_sub m cs)"
  by pat_completeness auto
termination
  by (relation "measure (\<lambda>(m, s). length s)") auto

definition REDACTIONS :: "(ustring \<Rightarrow> (nat \<times> ustring) option) list" where
  "REDACTIONS =
     [match_secret True (lit ''authorization:''),
      match_secret False (lit ''password=''),
      match_secret False (lit ''aws_secret_access_key=''),
      match_jwt]"

definition redact :: "ustring \<Rightarrow> ustring" where
  \<comment> \<open>\<^verbatim>\<open>_redact\<close>: the rewrites one after the other, each on the result of the last\<close>
  "redact t = fold re_sub REDACTIONS t"

section \<open>Sandboxed executor\<close>

datatype path =
    Path string  \<comment> \<open>\<^verbatim>\<open>Path(s)\<close>; \<^verbatim>\<open>Path()\<close> is the path \<^verbatim>\<open>.\<close>\<close>
  | Child path string  \<comment> \<open>\<^verbatim>\<open>p / name\<close>\<close>
  | LogFile path string int string  \<comment> \<open>\<^verbatim>\<open>p / f"{block_id}_{idx}.ext"\<close>\<close>

text \<open>
  What the operating system does with the process is the environment's answer: the
  process cannot be started and \<^verbatim>\<open>create_subprocess_exec\<close> raises; or it has not finished
  when the timeout expires, and then \<^verbatim>\<open>proc.kill()\<close> is called, which raises
  \<^verbatim>\<open>ProcessLookupError\<close> when the process has exited in the meantime; or it exits with a
  return code and the bytes of its two streams. The environment also says which files
  can be written.
\<close>

datatype proc_outcome =
    SpawnFailed py_error
  | TimedOut "py_error option"  \<comment> \<open>what \<^verbatim>\<open>proc.kill()\<close> raises, if anything\<close>
  | Exited int "byte list" "byte list"

record environment =
  run_proc :: "string list \<Rightarrow> string \<Rightarrow> int \<Rightarrow> proc_outcome"
  can_write :: "path \<Rightarrow> bool"

type_synonym files = "path \<Rightarrow> ustring option"

type_synonym cmd_result = "int \<times> ustring \<times> ustring \<times> path \<times> path"

text \<open>
  \<^verbatim>\<open>run_command\<close> with the files as explicit state. \<^verbatim>\<open>shlex.split\<close> is outside the
  \<^verbatim>\<open>try\<close>: its \<^verbatim>\<open>ValueError\<close> is raised. An empty argument vector is a \<^verbatim>\<open>TypeError\<close> of
  \<^verbatim>\<open>create_subprocess_exec\<close>, and an argument or a working directory with a NUL character
  is a \<^verbatim>\<open>ValueError\<close>, before any process is started. Only \<^verbatim>\<open>TimeoutError\<close> is caught,
  and \<^verbatim>\<open>proc.kill()\<close> is called in the handler, unguarded.
\<close>

definition run_command ::
  "environment \<Rightarrow> files \<Rightarrow> session_config \<Rightarrow> string \<Rightarrow> int \<Rightarrow> string \<Rightarrow> int
     \<Rightarrow> files \<times> (py_error + cmd_result)" where
  "run_command env fs cfg block_id idx cmd timeout =
     (case shlex_split cmd of
        None \<Rightarrow> (fs, Inl ValueError)
      | Some parts \<Rightarrow>
         if parts = [] then (fs, Inl TypeError)
         else if list_ex has_nul parts \<or> has_nul (output_dir cfg) then (fs, Inl ValueError)
         else (case run_proc env parts (output_dir cfg) timeout of
                 SpawnFailed e \<Rightarrow> (fs, Inl e)
               | TimedOut killed \<Rightarrow>
                  (case killed of
                     Some e \<Rightarrow> (fs, Inl e)
                   | None \<Rightarrow> (fs, Inr (124, [], lit ''Timeout'', Path ''.'', Path ''.'')))
               | Exited returncode out err \<Rightarrow>
                  (let stdout = redact (decode_ignore out);
                       stderr = redact (decode_ignore err);
                       logs_dir = Child (Path (output_dir cfg)) ''logs'';
                       out_path = LogFile logs_dir block_id idx ''out'';
                       err_path = LogFile logs_dir block_id idx ''err''
                   in if \<not> can_write env out_path then (fs, Inl OSError)
                      else if \<not> can_write env err_path then (fs(out_path \<mapsto> stdout), Inl OSError)
                      else (fs(out_path \<mapsto> stdout, err_path \<mapsto> stderr),
                            Inr (returncode, stdout, stderr, out_path, err_path)))))"

section \<open>Observation builder\<close>

text \<open>
  The timestamp of an observation is the clock's and is left out. The summary
  \<^verbatim>\<open>f"{len(all_results)} command(s), exit={exit_code}, bytes={bytes_out}"\<close> is kept as its
  three numbers.
\<close>

record observation =
  block_id :: string
  exit_code :: int
  key_lines :: "ustring list"
  bytes_out :: nat
  summary :: "nat \<times> int \<times> nat"
  log_paths :: "path list"

definition is_linebreak :: "nat \<Rightarrow> bool" where
  \<comment> \<open>the line boundaries of \<^verbatim>\<open>str.splitlines\<close>\<close>
  "is_linebreak c =
     ((10 \<le> c \<and> c \<le> 13) \<or> (28 \<le> c \<and> c \<le> 30) \<or> c = 133 \<or> c = 8232 \<or> c = 8233)"

fun split_lines :: "ustring \<Rightarrow> ustring \<Rightarrow> ustring list" where
  \<comment> \<open>\<open>acc\<close> is the line read so far; a carriage return and a line feed together end
      one line; there is no empty last line\<close>
  "split_lines acc [] = (if acc = [] then [] else [acc])"
| "split_lines acc [c] = (if is_linebreak c then [acc] else [acc @ [c]])"
| "split_lines acc (c # d # cs) =
     (if c = 13 \<and> d = 10 then acc # split_lines [] cs
      else if is_linebreak c then acc # split_lines [] (d # cs)
      else split_lines (acc @ [c]) (d # cs))"

definition splitlines :: "ustring \<Rightarrow> ustring list" where
  "splitlines s = split_lines [] s"

definition utf8_len :: "nat \<Rightarrow> nat option" where
  \<comment> \<open>the number of bytes of a code point in \<^verbatim>\<open>s.encode()\<close>; a surrogate cannot be
      encoded\<close>
  "utf8_len c =
     (if c < 0x80 then Some 1
      else if c < 0x800 then Some 2
      else if 0xD800 \<le> c \<and> c \<le> 0xDFFF then None
      else if c < 0x10000 then Some 3
      else Some 4)"

fun encoded_len :: "ustring \<Rightarrow> nat option" where
  \<comment> \<open>\<^verbatim>\<open>len(s.encode())\<close>, or \<^const>\<open>None\<close> for \<^verbatim>\<open>UnicodeEncodeError\<close>\<close>
  "encoded_len [] = Some 0"
| "encoded_len (c # cs) =
     (case utf8_len c of
        None \<Rightarrow> None
      | Some n \<Rightarrow> (case encoded_len cs of None \<Rightarrow> None | Some k \<Rightarrow> Some (n + k)))"

fun sum_encoded :: "ustring list \<Rightarrow> nat option" where
  "sum_encoded [] = Some 0"
| "sum_encoded (s # ss) =
     (case encoded_len s of
        None \<Rightarrow> None
      | Some n \<Rightarrow> (case sum_encoded ss of None \<Rightarrow> None | Some k \<Rightarrow> Some (n + k)))"

fun py_max :: "int list \<Rightarrow> int \<Rightarrow> int" where
  \<comment> \<open>\<^verbatim>\<open>max(xs, default=d)\<close>\<close>
  "py_max [] d = d"
| "py_max (x # xs) d = fold max xs x"

definition rc_of :: "cmd_result \<Rightarrow> int" where
  "rc_of r = fst r"

definition stdout_of :: "cmd_result \<Rightarrow> ustring" where
  "stdout_of r = fst (snd r)"

definition logs_of :: "cmd_result \<Rightarrow> path list" where
  \<comment> \<open>a \<^verbatim>\<open>Path\<close> object is always true, so both paths are always listed\<close>
  "logs_of r = [fst (snd (snd (snd r))), snd (snd (snd (snd r)))]"

definition combined_output :: "cmd_result list \<Rightarrow> ustring" where
  "combined_output all_results = concat (map stdout_of all_results)"

definition make_observation :: "string \<Rightarrow> cmd_result list \<Rightarrow> py_error + observation" where
  "make_observation bid all_results =
     (let code = py_max (map rc_of all_results) 0;
          combined = combined_output all_results;
          lines = splitlines combined;
          keys = (if combined \<noteq> []
                  then take 20 lines @ [lit ''...''] @ drop (length lines - 10) lines
                  else [])
      in case sum_encoded (map stdout_of all_results) of
           None \<Rightarrow> Inl UnicodeEncodeError
         | Some n \<Rightarrow>
            Inr \<lparr>block_id = bid, exit_code = code, key_lines = keys, bytes_out = n,
                 summary = (length all_results, code, n),
                 log_paths = concat (map logs_of all_results)\<rparr>)"

section \<open>Notions for the redaction proof\<close>

definition nsp :: "nat \<Rightarrow> bool" where
  \<comment> \<open>a character that is not whitespace: what \<^verbatim>\<open>\S\<close> matches\<close>
  "nsp c = (\<not> is_space c)"

definition pat_char :: "nat \<Rightarrow> bool" where
  \<comment> \<open>the characters of the three keys: lowercase letters, the underscore, the colon and the equals sign\<close>
  "pat_char p = ((97 \<le> p \<and> p \<le> 122) \<or> p = 95 \<or> p = 58 \<or> p = 61)"

definition terminator :: "nat \<Rightarrow> bool" where
  \<comment> \<open>the last character of a key: the colon or the equals sign\<close>
  "terminator p = (p = 58 \<or> p = 61)"

definition good_key :: "ustring \<Rightarrow> bool" where
  \<comment> \<open>a key ends with its only terminator\<close>
  "good_key K = (K \<noteq> [] \<and> list_all pat_char K \<and> terminator (last K)
                 \<and> list_all (\<lambda>p. \<not> terminator p) (butlast K))"

definition token :: "ustring \<Rightarrow> bool" where
  \<comment> \<open>the two replacement texts\<close>
  "token B = (B = REDACTED \<or> B = JWT_REDACTED)"

definition wf_matcher :: "(ustring \<Rightarrow> (nat \<times> ustring) option) \<Rightarrow> bool" where
  \<comment> \<open>what the scan needs of a matcher: no match on the empty text or at a whitespace character, a match is not empty and its replacement starts with a character that is not whitespace, and no match starts inside a replacement text\<close>
  "wf_matcher m =
     (m [] = None \<and> (\<forall>c cs. is_space c \<longrightarrow> m (c # cs) = None)
      \<and> (\<forall>s n r. m s = Some (n, r) \<longrightarrow> 0 < n \<and> r \<noteq> [] \<and> nsp (hd r))
      \<and> (\<forall>e z. e < length REDACTED \<longrightarrow> m (drop e REDACTED @ z) = None))"

definition head_space :: "ustring \<Rightarrow> bool" where
  \<comment> \<open>a text that is empty or starts with whitespace\<close>
  "head_space z = (z = [] \<or> is_space (hd z))"

definition run_ok :: "ustring \<Rightarrow> bool" where
  \<comment> \<open>the characters up to the next whitespace are none or the replacement text\<close>
  "run_ok y = (takeWhile nsp y = [] \<or> takeWhile nsp y = REDACTED)"

definition key_end :: "bool \<Rightarrow> ustring \<Rightarrow> ustring \<Rightarrow> nat" where
  \<comment> \<open>where the value of a key starts: behind the key and, with \<open>sp\<close>, the whitespace after it\<close>
  "key_end sp K s =
     length K + (if sp then length (takeWhile is_space (drop (length K) s)) else 0)"

definition secret_value :: "bool \<Rightarrow> ustring \<Rightarrow> ustring \<Rightarrow> ustring" where
  \<comment> \<open>the value of a key: the characters up to the next whitespace\<close>
  "secret_value sp K s = takeWhile nsp (drop (key_end sp K s) s)"

definition value_ok :: "bool \<Rightarrow> ustring \<Rightarrow> ustring \<Rightarrow> bool" where
  \<comment> \<open>a key at the head of the text has no value or the replacement text as its value\<close>
  "value_ok sp K s = (ci_prefix K s \<longrightarrow> run_ok (drop (key_end sp K s) s))"

definition settled :: "bool \<Rightarrow> ustring \<Rightarrow> ustring \<Rightarrow> bool" where
  \<comment> \<open>every key in the text has no value or the replacement text as its value\<close>
  "settled sp K t = (\<forall>e. value_ok sp K (drop e t))"

definition unrelated :: "ustring \<Rightarrow> ustring \<Rightarrow> bool" where
  \<comment> \<open>neither key ends with the other\<close>
  "unrelated K K' = (\<forall>e. drop e K \<noteq> K' \<and> drop e K' \<noteq> K)"

definition jwt_free :: "ustring \<Rightarrow> bool" where
  \<comment> \<open>the three-segment pattern matches nowhere in the text\<close>
  "jwt_free t = (\<forall>e. match_jwt (drop e t) = None)"

definition KEY_AUTH :: ustring where "KEY_AUTH = lit ''authorization:''"

definition KEY_PASS :: ustring where "KEY_PASS = lit ''password=''"

definition KEY_AWS :: ustring where "KEY_AWS = lit ''aws_secret_access_key=''"

section \<open>Sessions and results used as examples\<close>

definition example_scope :: scope where
  \<comment> \<open>the scope of the end-to-end examples: the one domain \<^verbatim>\<open>example.com\<close>, the
      other fields at their defaults\<close>
  "example_scope = \<lparr>cidrs = [], domains = [''example.com''], hosts = [], paths = [''.''],
     out_of_scope = []\<rparr>"

definition example_config :: "string \<Rightarrow> scope \<Rightarrow> session_config" where
  "example_config m sc = \<lparr>authorization_doc = ''authorized'', scope = sc,
     roe = \<lparr>rate_limit_per_sec = None, time_window = None, no_touch = [], roe_notes = None\<rparr>,
     mode = m, output_dir = ''out'', kill_switch = ''ABORT WSRA NOW''\<rparr>"

definition example_platform :: platform where
  \<comment> \<open>a platform whose working directory is \<^verbatim>\<open>/work\<close>, with no symbolic links, where
      the paths used below resolve to themselves and a set is iterated in the order of
      the list\<close>
  "example_platform =
     \<lparr>fs_resolve = (\<lambda>p. Inr (if p = ''.'' then ''/work'' else p)), set_order = (\<lambda>xs. xs)\<rparr>"


definition race_env :: environment where
  \<comment> \<open>an environment in which every process has not finished at its timeout and has
      exited when \<^verbatim>\<open>proc.kill()\<close> is called\<close>
  "race_env = \<lparr>run_proc = (\<lambda>argv cwd timeout. TimedOut (Some ProcessLookupError)),
     can_write = (\<lambda>p. True)\<rparr>"

definition no_surrogates :: "ustring \<Rightarrow> bool" where
  \<comment> \<open>a text that \<^verbatim>\<open>encode()\<close> accepts; every text that \<^verbatim>\<open>decode\<close> returns is one\<close>
  "no_surrogates s = (\<forall>c \<in> set s. \<not> (0xD800 \<le> c \<and> c \<le> 0xDFFF))"

section \<open>Properties of the mode authorizer\<close>

lemma enforce_cases:
  obtains (raises) r ro why e where "classify_and_check cmd = (r, ro, why)"
      and "in_scope_command pf cfg cmd = Inl e"
    | (returns) r ro why ok sr where "classify_and_check cmd = (r, ro, why)"
      and "in_scope_command pf cfg cmd = Inr (ok, sr)"
  by (cases "classify_and_check cmd"; cases "in_scope_command pf cfg cmd") auto








lemma targets_ls: "extract_targets ''ls'' = []"
  by code_simp

lemma paths_ls: "extract_paths ''ls'' = []"
  by code_simp

lemma classify_ls:
  "classify_and_check ''ls'' = (Low, True, ''ls considered read-only (MVP allowlist)'')"
  by code_simp







text \<open>
  C10. On every return path of the authorizer \<^verbatim>\<open>allow_execute\<close> is the negation of
  \<^verbatim>\<open>needs_approval\<close>, whatever the session (its mode may be any string) and the command.
  The authorizer returns such a decision whenever the scope check returns, and raises
  what the scope check raises otherwise.
\<close>

theorem enforce_flags_complementary:
  "(enforce pf cfg cmd = Inr (allow_execute, needs_approval, why) \<longrightarrow>
      allow_execute = (\<not> needs_approval))
   \<and> (case in_scope_command pf cfg cmd of
        Inl e \<Rightarrow> enforce pf cfg cmd = Inl e
      | Inr checked \<Rightarrow>
         (\<exists>allow reason. enforce pf cfg cmd = Inr (allow, \<not> allow, reason)))"
  by (cases rule: enforce_cases[of cmd pf cfg]) (auto simp add: enforce_def)

theorem enforce_flags_complementary_witness:
  "enforce example_platform (example_config ''AUTO_READONLY'' example_scope) ''ls''
     = Inr (True, False, AllowedAutoReadonly ''ls considered read-only (MVP allowlist)'')
   \<and> True = (\<not> False)
   \<and> in_scope_command example_platform (example_config ''AUTO_READONLY'' example_scope) ''ls''
       = Inr (True, InScope)"
  using enforce_flags_complementary
      [of example_platform "example_config ''AUTO_READONLY'' example_scope" "''ls''" True False
          "AllowedAutoReadonly ''ls considered read-only (MVP allowlist)''"]
  by (simp add: enforce_def in_scope_command_def Let_def targets_ls paths_ls classify_ls
      example_config_def)

lemma targets_curl_head: "extract_targets ''curl -I https://example.com'' = [''example.com'']"
  by code_simp

lemma paths_curl_head: "extract_paths ''curl -I https://example.com'' = []"
  by code_simp

lemma classify_curl_head:
  "classify_and_check ''curl -I https://example.com''
     = (Low, True, ''curl with --head/-I (metadata only)'')"
  by code_simp

lemma targets_curl_get: "extract_targets ''curl https://example.com'' = [''example.com'']"
  by code_simp

lemma paths_curl_get: "extract_paths ''curl https://example.com'' = []"
  by code_simp

lemma classify_curl_get:
  "classify_and_check ''curl https://example.com''
     = (Medium, False, ''curl without --head/-I is not read-only safe by default'')"
  by code_simp

lemma in_scope_curl:
  assumes "domains (scope cfg) = [''example.com'']"
    and "''example.com'' \<notin> set (out_of_scope (scope cfg))"
  shows "in_scope_command pf cfg ''curl -I https://example.com'' = Inr (True, InScope)"
    and "in_scope_command pf cfg ''curl https://example.com'' = Inr (True, InScope)"
  using assms
  by (simp_all add: in_scope_command_def Let_def targets_curl_head paths_curl_head
      targets_curl_get paths_curl_get target_allowed_def)

text \<open>
  C3. In the mode \<^verbatim>\<open>AUTO_READONLY\<close>, for a command that passes the scope check, the
  authorizer allows execution exactly when the classifier returns the risk \<^verbatim>\<open>low\<close> with
  \<^verbatim>\<open>read_only_ok\<close>, and asks for approval otherwise. With the one allowed domain
  \<^verbatim>\<open>example.com\<close> (not on the denylist), \<^verbatim>\<open>curl -I https://example.com\<close> is allowed
  automatically and \<^verbatim>\<open>curl https://example.com\<close> needs approval.
\<close>

theorem auto_readonly_decision:
  "mode cfg = ''AUTO_READONLY'' \<Longrightarrow>
     (in_scope_command pf cfg cmd = Inr (True, sr) \<longrightarrow>
        (\<exists>allow_execute needs_approval reason.
           enforce pf cfg cmd = Inr (allow_execute, needs_approval, reason)
           \<and> (allow_execute
                \<longleftrightarrow> fst (classify_and_check cmd) = Low \<and> fst (snd (classify_and_check cmd)))
           \<and> (\<not> allow_execute \<longrightarrow> needs_approval)))
     \<and> (domains (scope cfg) = [''example.com'']
          \<and> ''example.com'' \<notin> set (out_of_scope (scope cfg)) \<longrightarrow>
        enforce pf cfg ''curl -I https://example.com''
          = Inr (True, False, AllowedAutoReadonly ''curl with --head/-I (metadata only)'')
        \<and> enforce pf cfg ''curl https://example.com''
          = Inr (False, True,
              NeedsApprovalAutoReadonly ''curl without --head/-I is not read-only safe by default''))"
proof -
  assume m: "mode cfg = ''AUTO_READONLY''"
  have general: "\<exists>allow_execute needs_approval reason.
           enforce pf cfg cmd = Inr (allow_execute, needs_approval, reason)
           \<and> (allow_execute
                \<longleftrightarrow> fst (classify_and_check cmd) = Low \<and> fst (snd (classify_and_check cmd)))
           \<and> (\<not> allow_execute \<longrightarrow> needs_approval)"
    if "in_scope_command pf cfg cmd = Inr (True, sr)"
    using m that by (cases "classify_and_check cmd") (auto simp add: enforce_def)
  have examples: "enforce pf cfg ''curl -I https://example.com''
          = Inr (True, False, AllowedAutoReadonly ''curl with --head/-I (metadata only)'')
        \<and> enforce pf cfg ''curl https://example.com''
          = Inr (False, True,
              NeedsApprovalAutoReadonly ''curl without --head/-I is not read-only safe by default'')"
    if "domains (scope cfg) = [''example.com'']"
      and "''example.com'' \<notin> set (out_of_scope (scope cfg))"
    using m in_scope_curl[OF that]
    by (simp add: enforce_def classify_curl_head classify_curl_get)
  show ?thesis using general examples by blast
qed

theorem auto_readonly_decision_witness:
  "mode (example_config ''AUTO_READONLY'' example_scope) = ''AUTO_READONLY''
   \<and> in_scope_command example_platform (example_config ''AUTO_READONLY'' example_scope)
        ''curl -I https://example.com'' = Inr (True, InScope)
   \<and> domains (scope (example_config ''AUTO_READONLY'' example_scope)) = [''example.com'']
   \<and> ''example.com'' \<notin> set (out_of_scope (scope (example_config ''AUTO_READONLY'' example_scope)))
   \<and> enforce example_platform (example_config ''AUTO_READONLY'' example_scope)
        ''curl -I https://example.com''
        = Inr (True, False, AllowedAutoReadonly ''curl with --head/-I (metadata only)'')
   \<and> enforce example_platform (example_config ''AUTO_READONLY'' example_scope)
        ''curl https://example.com''
        = Inr (False, True,
            NeedsApprovalAutoReadonly ''curl without --head/-I is not read-only safe by default'')"
proof -
  have d: "domains (scope (example_config ''AUTO_READONLY'' example_scope)) = [''example.com'']"
    and o: "''example.com''
              \<notin> set (out_of_scope (scope (example_config ''AUTO_READONLY'' example_scope)))"
    and m: "mode (example_config ''AUTO_READONLY'' example_scope) = ''AUTO_READONLY''"
    by (simp_all add: example_config_def example_scope_def)
  show ?thesis
    using auto_readonly_decision
        [OF m, of example_platform "''curl -I https://example.com''" InScope]
      in_scope_curl(1) [OF d o, of example_platform] d o m
    by simp
qed

section \<open>Properties of the guardrail classifier\<close>

text \<open>
  A deny-list pattern that occurs in the lowercased, stripped command decides the
  classification before the leading token is looked at. The last pattern has a capital
  letter and occurs in no lowercased text.
\<close>

lemma str_contains_set: "str_contains pat t \<Longrightarrow> set pat \<subseteq> set t"
proof (induction t)
  case Nil
  then show ?case by simp
next
  case (Cons c cs)
  show ?case
  proof (cases "prefix pat (c # cs)")
    case True
    then show ?thesis by (rule set_mono_prefix)
  next
    case False
    with Cons show ?thesis by auto
  qed
qed

lemma lower_char_not_capital: "lower_char c \<noteq> CHR ''R''"
proof -
  let ?n = "of_char c :: nat"
  have "?n < 256"
    by simp
  have "of_char (lower_char c) \<noteq> (82::nat)"
  proof (cases "(65 \<le> ?n \<and> ?n \<le> 90) \<or> (192 \<le> ?n \<and> ?n \<le> 222 \<and> ?n \<noteq> 215)")
    case True
    then have "of_char (lower_char c) = ((?n + 32) mod 256 :: nat)"
      by (simp add: lower_char_def ord_def chr_def Let_def)
    moreover from True have "65 \<le> ?n" and "?n \<le> 222"
      by linarith+
    then have "(?n + 32) mod 256 = ?n + 32" and "?n + 32 \<noteq> 82"
      by simp_all
    ultimately show ?thesis
      by simp
  next
    case False
    then have "lower_char c = c"
      unfolding lower_char_def ord_def Let_def by (rule if_not_P)
    moreover from False have "?n \<noteq> 82"
      by linarith
    ultimately show ?thesis
      by simp
  qed
  moreover have "of_char CHR ''R'' = (82::nat)"
    by simp
  ultimately show ?thesis
    by metis
qed

lemma chmod_pattern_never_found: "\<not> str_contains ''chmod -R 777 /'' (lower s)"
proof
  assume "str_contains ''chmod -R 777 /'' (lower s)"
  then have "CHR ''R'' \<in> set (lower s)"
    using str_contains_set by fastforce
  then obtain c where "lower_char c = CHR ''R''"
    by (auto simp: lower_def)
  then show False
    by (simp add: lower_char_not_capital)
qed

lemma deny_pattern_found:
  assumes "pat \<in> set DENY_PATTERNS" and "str_contains pat (lower (strip cmd))"
  shows "\<exists>p \<in> set DENY_PATTERNS.
           str_contains p (lower (strip cmd))
           \<and> classify_and_check cmd = (Medium, False, ''Denied pattern: '' @ p)"
proof (cases "find (\<lambda>p. str_contains p (lower (strip cmd))) DENY_PATTERNS")
  case None
  with assms show ?thesis
    by (auto simp: find_None_iff)
next
  case (Some p)
  then have "p \<in> set DENY_PATTERNS" and "str_contains p (lower (strip cmd))"
    by (auto simp: find_Some_iff)
  with Some show ?thesis
    by (auto simp: classify_and_check_def Let_def)
qed

text \<open>
  C2. A command that contains a deny-list pattern is to be classified \<^verbatim>\<open>medium\<close>, not
  read-only, with a reason that names the pattern, whatever its leading token. The text
  is lowercased before the patterns are looked for, and the pattern \<^verbatim>\<open>chmod -R 777 /\<close>
  has a capital letter, so it is never found: \<^verbatim>\<open>echo chmod -R 777 /\<close> contains it and
  is classified \<^verbatim>\<open>low\<close> and read-only by its leading token.
\<close>

theorem deny_pattern_chmod_missed:
  "''chmod -R 777 /'' \<in> set DENY_PATTERNS
   \<and> str_contains ''chmod -R 777 /'' ''echo chmod -R 777 /''
   \<and> classify_and_check ''echo chmod -R 777 /''
       = (Low, True, ''echo considered read-only (MVP allowlist)'')
   \<and> classify_and_check ''chmod -R 777 /'' = (Medium, False, ''chmod requires approval'')"
  by code_simp

section \<open>Properties of the scope resolver\<close>

lemma targets_dig: "extract_targets ''dig sub.example.com'' = [''sub.example.com'']"
  by code_simp

lemma paths_dig: "extract_paths ''dig sub.example.com'' = []"
  by code_simp

lemma in_scope_single_target:
  assumes "extract_targets cmd = [t]" and "extract_paths cmd = []"
  shows "\<exists>reason. in_scope_command pf cfg cmd
           = Inr (t \<notin> set (out_of_scope (scope cfg)) \<and> target_allowed (scope cfg) t, reason)"
  using assms by (auto simp add: in_scope_command_def Let_def)

lemma denylist_wins:
  assumes "t \<in> set (extract_targets cmd)" and "t \<in> set (out_of_scope (scope cfg))"
  shows "\<exists>reason. in_scope_command pf cfg cmd = Inr (False, reason)"
proof -
  have "extract_targets cmd \<noteq> []" using assms(1) by auto
  moreover have "list_ex (\<lambda>t. t \<in> set (out_of_scope (scope cfg))) (extract_targets cmd)"
    using assms by (auto simp add: list_ex_iff)
  ultimately show ?thesis by (simp add: in_scope_command_def Let_def)
qed

lemma target_allowed_iff:
  "target_allowed sc t \<longleftrightarrow>
     (\<exists>d \<in> set (domains sc). d = t \<or> endswith t (''.'' @ d)) \<or> t \<in> set (hosts sc)"
  by (simp add: target_allowed_def list_ex_iff)

lemma sub_allowed_by_parent:
  "''example.com'' \<in> set (domains sc) \<Longrightarrow> target_allowed sc ''sub.example.com''"
  by (auto simp add: target_allowed_def list_ex_iff endswith_def
      intro!: bexI[of _ "''example.com''"])

text \<open>
  C4, as amended. A command whose only target is \<^verbatim>\<open>sub.example.com\<close> and that names no
  absolute path is in scope exactly when \<^verbatim>\<open>sub.example.com\<close> is not on the denylist and
  is allowed: it equals an allowed domain, or ends with a dot and an allowed domain, or
  is an allowed host. So with \<^verbatim>\<open>example.com\<close> an allowed domain it is in scope exactly
  when \<^verbatim>\<open>sub.example.com\<close> is not on the denylist. For every command and scope, a target
  on the denylist rejects the command, whatever the allowed domains and hosts. In each
  case the check returns and raises nothing.
\<close>

theorem scope_subdomain_and_denylist:
  "(extract_targets cmd = [''sub.example.com''] \<and> extract_paths cmd = [] \<longrightarrow>
      (\<exists>ok reason. in_scope_command pf cfg cmd = Inr (ok, reason)
         \<and> (ok \<longleftrightarrow>
              ''sub.example.com'' \<notin> set (out_of_scope (scope cfg))
              \<and> ((\<exists>d \<in> set (domains (scope cfg)).
                     d = ''sub.example.com'' \<or> endswith ''sub.example.com'' (''.'' @ d))
                 \<or> ''sub.example.com'' \<in> set (hosts (scope cfg))))
         \<and> (''example.com'' \<in> set (domains (scope cfg)) \<longrightarrow>
              (ok \<longleftrightarrow> ''sub.example.com'' \<notin> set (out_of_scope (scope cfg))))))
   \<and> (\<forall>t \<in> set (extract_targets cmd).
         t \<in> set (out_of_scope (scope cfg)) \<longrightarrow>
         (\<exists>reason. in_scope_command pf cfg cmd = Inr (False, reason)))"
proof -
  have "\<exists>ok reason. in_scope_command pf cfg cmd = Inr (ok, reason)
         \<and> (ok \<longleftrightarrow>
              ''sub.example.com'' \<notin> set (out_of_scope (scope cfg))
              \<and> ((\<exists>d \<in> set (domains (scope cfg)).
                     d = ''sub.example.com'' \<or> endswith ''sub.example.com'' (''.'' @ d))
                 \<or> ''sub.example.com'' \<in> set (hosts (scope cfg))))
         \<and> (''example.com'' \<in> set (domains (scope cfg)) \<longrightarrow>
              (ok \<longleftrightarrow> ''sub.example.com'' \<notin> set (out_of_scope (scope cfg))))"
    if "extract_targets cmd = [''sub.example.com'']" and "extract_paths cmd = []"
  proof -
    from in_scope_single_target[OF that] obtain reason where
      r: "in_scope_command pf cfg cmd
            = Inr (''sub.example.com'' \<notin> set (out_of_scope (scope cfg))
                   \<and> target_allowed (scope cfg) ''sub.example.com'', reason)"
      by blast
    have "target_allowed (scope cfg) ''sub.example.com''"
      if "''example.com'' \<in> set (domains (scope cfg))"
      using sub_allowed_by_parent[OF that] .
    with r show ?thesis
      by (auto simp add: target_allowed_iff)
  qed
  moreover have "\<forall>t \<in> set (extract_targets cmd).
         t \<in> set (out_of_scope (scope cfg)) \<longrightarrow>
         (\<exists>reason. in_scope_command pf cfg cmd = Inr (False, reason))"
    using denylist_wins by blast
  ultimately show ?thesis by blast
qed

theorem scope_subdomain_and_denylist_witness:
  "extract_targets ''dig sub.example.com'' = [''sub.example.com'']
   \<and> extract_paths ''dig sub.example.com'' = []
   \<and> ''example.com'' \<in> set (domains (scope (example_config ''AUTO_READONLY'' example_scope)))
   \<and> ''sub.example.com''
        \<notin> set (out_of_scope (scope (example_config ''AUTO_READONLY'' example_scope)))
   \<and> in_scope_command example_platform (example_config ''AUTO_READONLY'' example_scope)
        ''dig sub.example.com'' = Inr (True, InScope)
   \<and> ''sub.example.com'' \<in> set (extract_targets ''dig sub.example.com'')
   \<and> ''sub.example.com''
        \<in> set (out_of_scope (scope (example_config ''AUTO_READONLY''
              (example_scope\<lparr>domains := [''sub.example.com''], hosts := [''sub.example.com''],
                 out_of_scope := [''sub.example.com'']\<rparr>))))
   \<and> in_scope_command example_platform
        (example_config ''AUTO_READONLY''
           (example_scope\<lparr>domains := [''sub.example.com''], hosts := [''sub.example.com''],
              out_of_scope := [''sub.example.com'']\<rparr>))
        ''dig sub.example.com''
       = Inr (False, TargetOutOfScope {''sub.example.com''})"
  using scope_subdomain_and_denylist
      [of "''dig sub.example.com''" example_platform
        "example_config ''AUTO_READONLY'' example_scope"]
    scope_subdomain_and_denylist
      [of "''dig sub.example.com''" example_platform
        "example_config ''AUTO_READONLY''
           (example_scope\<lparr>domains := [''sub.example.com''], hosts := [''sub.example.com''],
              out_of_scope := [''sub.example.com'']\<rparr>)"]
  by (simp add: in_scope_command_def Let_def target_allowed_def targets_dig paths_dig
      example_config_def example_scope_def endswith_def)

text \<open>
  C4, as stated, fails: with no allowed domain and the allowed host \<^verbatim>\<open>sub.example.com\<close>,
  the command \<^verbatim>\<open>dig sub.example.com\<close> is in scope although \<^verbatim>\<open>example.com\<close> is not an
  allowed domain.
\<close>

theorem scope_subdomain_iff_counterexample:
  "\<not> (in_scope_command example_platform
          (example_config ''AUTO_READONLY''
             (example_scope\<lparr>domains := [], hosts := [''sub.example.com'']\<rparr>))
          ''dig sub.example.com'' = Inr (True, InScope)
       \<longleftrightarrow> ''example.com''
              \<in> set (domains (scope (example_config ''AUTO_READONLY''
                    (example_scope\<lparr>domains := [], hosts := [''sub.example.com'']\<rparr>))))
           \<and> ''sub.example.com''
              \<notin> set (out_of_scope (scope (example_config ''AUTO_READONLY''
                    (example_scope\<lparr>domains := [], hosts := [''sub.example.com'']\<rparr>)))))"
  by (simp add: in_scope_command_def Let_def targets_dig paths_dig target_allowed_def
      example_config_def example_scope_def)

section \<open>Properties of the observation builder\<close>

lemma encoded_len_Some: "no_surrogates s \<Longrightarrow> \<exists>n. encoded_len s = Some n"
  by (induction s) (auto simp add: no_surrogates_def utf8_len_def)

lemma sum_encoded_Some:
  "\<forall>s \<in> set ss. no_surrogates s \<Longrightarrow> \<exists>n. sum_encoded ss = Some n"
proof (induction ss)
  case Nil
  then show ?case by simp
next
  case (Cons s ss)
  then obtain n k where "encoded_len s = Some n" "sum_encoded ss = Some k"
    using encoded_len_Some[of s] by auto
  then show ?case by simp
qed

lemma fold_max: "fold max xs (x::int) = Max (set (x # xs))"
proof (induction xs arbitrary: x)
  case Nil
  then show ?case by simp
next
  case (Cons y ys)
  have "fold max (y # ys) x = Max (set (max y x # ys))" using Cons by simp
  also have "\<dots> = Max (insert x (insert y (set ys)))"
    by (cases "ys = []") (auto simp add: max.commute max.left_commute Max_insert max.assoc)
  finally show ?case by (simp add: insert_commute)
qed

lemma py_max_Max: "xs \<noteq> [] \<Longrightarrow> py_max xs d = Max (set xs)"
  by (cases xs) (simp_all add: fold_max)

lemma make_observation_returns:
  assumes "\<forall>r \<in> set rs. no_surrogates (stdout_of r)"
  shows "\<exists>n. make_observation bid rs =
     Inr \<lparr>block_id = bid, exit_code = py_max (map rc_of rs) 0,
          key_lines = (if combined_output rs \<noteq> []
                  then take 20 (splitlines (combined_output rs)) @ [lit ''...'']
                       @ drop (length (splitlines (combined_output rs)) - 10)
                           (splitlines (combined_output rs))
                  else []),
          bytes_out = n,
          summary = (length rs, py_max (map rc_of rs) 0, n),
          log_paths = concat (map logs_of rs)\<rparr>"
proof -
  obtain n where "sum_encoded (map stdout_of rs) = Some n"
    using sum_encoded_Some[of "map stdout_of rs"] assms by auto
  then show ?thesis by (simp add: make_observation_def Let_def)
qed

text \<open>
  C6, as amended. For results whose output can be encoded, the builder returns an
  observation whose exit code is the greatest of the exit codes of the results, and 0
  for no results. Every exit code is at most the aggregate, so a positive exit code
  makes the aggregate positive (a negative one need not show in it). For the exit
  codes 0, 2, 0 the aggregate is 2.
\<close>

theorem aggregate_exit_code:
  assumes "\<forall>r \<in> set rs. no_surrogates (stdout_of r)"
  shows "\<exists>obs. make_observation bid rs = Inr obs
           \<and> exit_code obs = (if rs = [] then 0 else Max (set (map rc_of rs)))
           \<and> (\<forall>r \<in> set rs. rc_of r \<le> exit_code obs)
           \<and> ((\<exists>r \<in> set rs. 0 < rc_of r) \<longrightarrow> 0 < exit_code obs)"
proof -
  obtain obs where o: "make_observation bid rs = Inr obs"
    and e: "exit_code obs = py_max (map rc_of rs) 0"
    using make_observation_returns[OF assms, of bid] by auto
  have m: "exit_code obs = (if rs = [] then 0 else Max (set (map rc_of rs)))"
    using e by (cases "rs = []") (simp_all add: py_max_Max)
  have le: "\<forall>r \<in> set rs. rc_of r \<le> exit_code obs"
  proof
    fix r assume "r \<in> set rs"
    then have "rs \<noteq> []" "rc_of r \<in> set (map rc_of rs)" by auto
    then show "rc_of r \<le> exit_code obs" using m by simp
  qed
  have "(\<exists>r \<in> set rs. 0 < rc_of r) \<longrightarrow> 0 < exit_code obs"
    using le by force
  then show ?thesis using o m le by blast
qed

theorem aggregate_exit_code_witness:
  "list_all (\<lambda>r. no_surrogates (stdout_of r))
      [(0, [], [], Path ''.'', Path ''.''), (2, [], [], Path ''.'', Path ''.''),
       (0::int, []::ustring, []::ustring, Path ''.'', Path ''.'')]
   \<and> (\<exists>r \<in> set [(0, [], [], Path ''.'', Path ''.''), (2, [], [], Path ''.'', Path ''.''),
               (0::int, []::ustring, []::ustring, Path ''.'', Path ''.'')]. 0 < rc_of r)
   \<and> (\<exists>obs. make_observation ''b1''
               [(0, [], [], Path ''.'', Path ''.''), (2, [], [], Path ''.'', Path ''.''),
                (0, [], [], Path ''.'', Path ''.'')] = Inr obs
         \<and> exit_code obs = 2)"
  using aggregate_exit_code
      [of "[(0, [], [], Path ''.'', Path ''.''), (2, [], [], Path ''.'', Path ''.''),
            (0, [], [], Path ''.'', Path ''.'')]" "''b1''"]
  by (auto simp add: no_surrogates_def stdout_of_def rc_of_def)

text \<open>
  C6, as stated, fails where it says that a non-zero exit code dominates zero: a process
  killed by signal 9 has the return code -9, and with a second result of exit code 0 the
  aggregate is 0.
\<close>

theorem negative_exit_code_counterexample:
  "make_observation ''b1''
     [(0, [], [], Path ''.'', Path ''.''), (- 9, [], [], Path ''.'', Path ''.'')]
     = Inr \<lparr>block_id = ''b1'', exit_code = 0, key_lines = [], bytes_out = 0,
            summary = (2, 0, 0), log_paths = [Path ''.'', Path ''.'', Path ''.'', Path ''.'']\<rparr>"
  by (simp add: make_observation_def combined_output_def stdout_of_def rc_of_def logs_of_def)

lemma split_lines_nonempty: "s \<noteq> [] \<Longrightarrow> split_lines acc s \<noteq> []"
  by (induction acc s rule: split_lines.induct) auto

lemma lit_hello: "lit ''hello'' = [104, 101, 108, 108, 111]"
  by (simp add: lit_def ord_def)

lemma splitlines_hello: "splitlines (lit ''hello'') = [lit ''hello'']"
  by (simp add: lit_hello splitlines_def is_linebreak_def)

lemma encoded_len_hello: "encoded_len (lit ''hello'') = Some 5"
  by (simp add: lit_hello utf8_len_def)

lemma lit_hello_nonempty: "lit ''hello'' \<noteq> []"
  by (simp add: lit_def)

text \<open>
  C7, as amended. For results whose output can be encoded and whose combined output is
  not empty, the key lines are the first 20 lines of the combined output (all of them
  when there are fewer), then the marker \<^verbatim>\<open>...\<close>, then the last 10 lines (all of them
  when there are fewer): at most 31 entries. The bound is on the number of lines only;
  an output of at most 20 lines is contained whole in the head of the extract.
\<close>

theorem key_lines_head_tail:
  assumes "\<forall>r \<in> set rs. no_surrogates (stdout_of r)"
    and "combined_output rs \<noteq> []"
  shows "\<exists>obs. make_observation bid rs = Inr obs
           \<and> key_lines obs = take 20 (splitlines (combined_output rs)) @ [lit ''...'']
                @ drop (length (splitlines (combined_output rs)) - 10)
                    (splitlines (combined_output rs))
           \<and> length (key_lines obs) \<le> 31
           \<and> splitlines (combined_output rs) \<noteq> []
           \<and> (length (splitlines (combined_output rs)) \<le> 20 \<longrightarrow>
                take (length (splitlines (combined_output rs))) (key_lines obs)
                  = splitlines (combined_output rs))"
proof -
  obtain obs where o: "make_observation bid rs = Inr obs"
    and k: "key_lines obs = take 20 (splitlines (combined_output rs)) @ [lit ''...'']
                @ drop (length (splitlines (combined_output rs)) - 10)
                    (splitlines (combined_output rs))"
    using make_observation_returns[OF assms(1), of bid] assms(2) by auto
  have "length (key_lines obs) \<le> 31" using k by simp
  moreover have "splitlines (combined_output rs) \<noteq> []"
    using assms(2) by (simp add: splitlines_def split_lines_nonempty)
  moreover have "length (splitlines (combined_output rs)) \<le> 20 \<longrightarrow>
                take (length (splitlines (combined_output rs))) (key_lines obs)
                  = splitlines (combined_output rs)"
    using k by simp
  ultimately show ?thesis using o k by blast
qed

theorem key_lines_head_tail_witness:
  "list_all (\<lambda>r. no_surrogates (stdout_of r))
      [(0::int, lit ''hello'', []::ustring, Path ''.'', Path ''.'')]
   \<and> combined_output [(0::int, lit ''hello'', []::ustring, Path ''.'', Path ''.'')] \<noteq> []
   \<and> length (splitlines
        (combined_output [(0::int, lit ''hello'', []::ustring, Path ''.'', Path ''.'')])) \<le> 20
   \<and> (\<exists>obs. make_observation ''b1'' [(0, lit ''hello'', [], Path ''.'', Path ''.'')] = Inr obs
         \<and> key_lines obs = [lit ''hello'', lit ''...'', lit ''hello''])"
proof -
  have 1: "\<forall>r \<in> set [(0::int, lit ''hello'', []::ustring, Path ''.'', Path ''.'')].
             no_surrogates (stdout_of r)"
    by (simp add: no_surrogates_def stdout_of_def lit_hello)
  have 2: "combined_output [(0::int, lit ''hello'', []::ustring, Path ''.'', Path ''.'')] \<noteq> []"
    by (simp add: combined_output_def stdout_of_def lit_hello_nonempty)
  have 3: "combined_output [(0::int, lit ''hello'', []::ustring, Path ''.'', Path ''.'')]
             = lit ''hello''"
    by (simp add: combined_output_def stdout_of_def)
  show ?thesis
    using key_lines_head_tail [OF 1 2, of "''b1''"] 1 2
    by (auto simp add: 3 splitlines_hello)
qed

text \<open>
  C7, as stated, fails where it says that the extract is never the full payload: for the
  output \<^verbatim>\<open>hello\<close>, of one line, the extract holds that line before and after the
  marker.
\<close>

theorem short_output_counterexample:
  "make_observation ''b1'' [(0, lit ''hello'', [], Path ''.'', Path ''.'')]
     = Inr \<lparr>block_id = ''b1'', exit_code = 0,
            key_lines = [lit ''hello'', lit ''...'', lit ''hello''], bytes_out = 5,
            summary = (1, 0, 5), log_paths = [Path ''.'', Path ''.'']\<rparr>
   \<and> splitlines (lit ''hello'') = [lit ''hello'']"
  by (simp add: make_observation_def Let_def combined_output_def stdout_of_def rc_of_def
      logs_of_def splitlines_hello encoded_len_hello lit_hello_nonempty)

section \<open>Properties of the sandboxed executor\<close>

lemma shlex_sleep: "shlex_split ''sleep 1'' = Some [''sleep'', ''1'']"
  by code_simp

text \<open>
  When the process has not finished at the timeout, what \<^verbatim>\<open>run_command\<close> does is decided
  by \<^verbatim>\<open>proc.kill()\<close>: if it raises nothing, the exit code 124, an empty standard output
  and the standard error \<^verbatim>\<open>Timeout\<close> are returned; if it raises, so does \<^verbatim>\<open>run_command\<close>.
  No file is written.
\<close>

lemma timeout_outcome:
  assumes "shlex_split cmd = Some parts" and "parts \<noteq> []"
    and "\<not> list_ex has_nul parts" and "\<not> has_nul (output_dir cfg)"
    and "run_proc env parts (output_dir cfg) timeout = TimedOut killed"
  shows "run_command env fs cfg bid idx cmd timeout
           = (fs, case killed of
                    None \<Rightarrow> Inr (124, [], lit ''Timeout'', Path ''.'', Path ''.'')
                  | Some e \<Rightarrow> Inl e)"
  using assms by (simp add: run_command_def split: option.splits)

text \<open>
  When the process exits and both log files can be written, the two streams are decoded
  with \<^const>\<open>decode_ignore\<close>, redacted, written to the log files and returned with the
  return code of the process.
\<close>

lemma exited_outcome:
  assumes "shlex_split cmd = Some parts" and "parts \<noteq> []"
    and "\<not> list_ex has_nul parts" and "\<not> has_nul (output_dir cfg)"
    and "run_proc env parts (output_dir cfg) timeout = Exited returncode out err"
    and "can_write env (LogFile (Child (Path (output_dir cfg)) ''logs'') bid idx ''out'')"
    and "can_write env (LogFile (Child (Path (output_dir cfg)) ''logs'') bid idx ''err'')"
  shows "run_command env fs cfg bid idx cmd timeout
           = (fs(LogFile (Child (Path (output_dir cfg)) ''logs'') bid idx ''out''
                   \<mapsto> redact (decode_ignore out),
                 LogFile (Child (Path (output_dir cfg)) ''logs'') bid idx ''err''
                   \<mapsto> redact (decode_ignore err)),
              Inr (returncode, redact (decode_ignore out), redact (decode_ignore err),
                   LogFile (Child (Path (output_dir cfg)) ''logs'') bid idx ''out'',
                   LogFile (Child (Path (output_dir cfg)) ''logs'') bid idx ''err''))"
  using assms by (simp add: run_command_def Let_def)

text \<open>
  C8. A command that exceeds its timeout is to make \<^verbatim>\<open>run_command\<close> return the exit code
  124 with an empty standard output and a placeholder standard error, and raise
  nothing. The handler of the timeout calls \<^verbatim>\<open>proc.kill()\<close> before it returns, outside
  any \<^verbatim>\<open>try\<close>: when the process of \<^verbatim>\<open>sleep 1\<close> has not finished at the timeout of one second
  and has exited when it is killed, \<^verbatim>\<open>run_command\<close> raises \<^verbatim>\<open>ProcessLookupError\<close> and returns
  nothing.
\<close>

theorem timeout_kill_raises:
  "run_proc race_env [''sleep'', ''1'']
       (output_dir (example_config ''AUTO_READONLY'' example_scope)) 1
     = TimedOut (Some ProcessLookupError)
   \<and> run_command race_env Map.empty (example_config ''AUTO_READONLY'' example_scope)
        ''b1'' 0 ''sleep 1'' 1
       = (Map.empty, Inl ProcessLookupError)"
  by (simp add: run_command_def shlex_sleep race_env_def example_config_def has_nul_def)



















section \<open>Properties of redaction\<close>

lemma re_sub_copy_prefix:
  "(\<forall>e<j. m (drop e t) = None) \<Longrightarrow> re_sub m t = take j t @ re_sub m (drop j t)"
proof (induction j arbitrary: t)
  case 0
  then show ?case by simp
next
  case (Suc j)
  show ?case
  proof (cases t)
    case Nil
    then show ?thesis by simp
  next
    case (Cons c cs)
    have n: "m (c # cs) = None" using Suc.prems Cons by (metis drop0 zero_less_Suc)
    have "\<forall>e<j. m (drop e cs) = None"
    proof (intro allI impI)
      fix e assume "e < j"
      then have "m (drop (Suc e) t) = None" using Suc.prems by simp
      then show "m (drop e cs) = None" using Cons by simp
    qed
    then have "re_sub m cs = take j cs @ re_sub m (drop j cs)" by (rule Suc.IH)
    then show ?thesis using Cons n by simp
  qed
qed

lemma ci_prefix_iff:
  "ci_prefix K s \<longleftrightarrow> length K \<le> length s \<and> (\<forall>i<length K. ci_match (K ! i) (s ! i))"
proof (induction K s rule: ci_prefix.induct)
  case (1 s)
  then show ?case by simp
next
  case (2 p ps)
  then show ?case by simp
next
  case (3 p ps c cs)
  show ?case
    using 3 by (auto simp add: nth_Cons split: nat.splits) 
qed

lemma ci_match_nsp: "pat_char p \<Longrightarrow> ci_match p c \<Longrightarrow> nsp c"
  unfolding pat_char_def ci_match_def nsp_def is_space_def by auto

lemma ci_match_not_bracket: "pat_char p \<Longrightarrow> ci_match p c \<Longrightarrow> c \<noteq> 91 \<and> c \<noteq> 93"
  unfolding pat_char_def ci_match_def by auto

lemma ci_match_terminator_text: "pat_char p \<Longrightarrow> ci_match p c \<Longrightarrow> terminator c \<Longrightarrow> p = c"
  unfolding pat_char_def ci_match_def terminator_def by auto

lemma ci_match_terminator_pat: "ci_match p c \<Longrightarrow> terminator p \<Longrightarrow> c = p"
  unfolding ci_match_def terminator_def by auto

lemma ci_match_same: "pat_char p \<Longrightarrow> pat_char q \<Longrightarrow> ci_match p c \<Longrightarrow> ci_match q c \<Longrightarrow> p = q"
  unfolding pat_char_def ci_match_def by auto

lemma good_key_nth: "good_key K \<Longrightarrow> i < length K \<Longrightarrow> pat_char (K ! i)"
  by (simp add: good_key_def list_all_length)

lemma good_key_inner: "good_key K \<Longrightarrow> i < length K - 1 \<Longrightarrow> \<not> terminator (K ! i)"
  by (simp add: good_key_def list_all_length nth_butlast)

lemma good_key_last: "good_key K \<Longrightarrow> terminator (K ! (length K - 1))"
  by (auto simp add: good_key_def last_conv_nth)

lemma good_key_length: "good_key K \<Longrightarrow> 0 < length K"
  by (simp add: good_key_def)

lemma key_chars:
  assumes "good_key K" and "ci_prefix K s" and "i < length K"
  shows "nsp (s ! i) \<and> s ! i \<noteq> 91 \<and> s ! i \<noteq> 93"
proof -
  have "ci_match (K ! i) (s ! i)" using assms by (simp add: ci_prefix_iff)
  then show ?thesis
    using good_key_nth[OF assms(1,3)] ci_match_nsp ci_match_not_bracket by blast
qed

lemma key_last:
  assumes "good_key K" and "ci_prefix K s"
  shows "terminator (s ! (length K - 1))"
proof -
  have "ci_match (K ! (length K - 1)) (s ! (length K - 1))"
    using assms good_key_length[OF assms(1)] by (simp add: ci_prefix_iff)
  then show ?thesis
    using good_key_last[OF assms(1)] ci_match_terminator_pat by fastforce
qed

lemma key_inner:
  assumes "good_key K" and "ci_prefix K s" and "i < length K - 1"
  shows "\<not> terminator (s ! i)"
proof
  assume t: "terminator (s ! i)"
  have "ci_match (K ! i) (s ! i)" using assms by (simp add: ci_prefix_iff)
  then have "K ! i = s ! i"
    using ci_match_terminator_text t good_key_nth[OF assms(1)] assms(3) by simp
  then show False using good_key_inner[OF assms(1,3)] t by simp
qed

lemma key_overlap:
  assumes "good_key K" and "good_key K'" and "ci_prefix K s" and "ci_prefix K' (drop j s)"
    and "j < length K"
  shows "drop j K = K'"
proof -
  let ?k = "length K" and ?k' = "length K'"
  have k: "0 < ?k" "0 < ?k'" using assms(1,2) good_key_length by auto
  have "?k' \<le> length s - j" using assms(4) by (simp add: ci_prefix_iff)
  then have len: "?k \<le> length s" "j + ?k' \<le> length s"
    using assms(3) k by (simp add: ci_prefix_iff, linarith)
  have t0: "terminator (s ! (?k - 1))" using key_last[OF assms(1,3)] .
  have "terminator (drop j s ! (?k' - 1))" using key_last[OF assms(2,4)] .
  then have t1: "terminator (s ! (j + ?k' - 1))" using len k by (simp add: add.commute)
  have "\<not> j + ?k' - 1 < ?k - 1"
    using key_inner[OF assms(1,3), of "j + ?k' - 1"] t1 by blast
  moreover have "\<not> ?k - 1 < j + ?k' - 1"
  proof
    assume "?k - 1 < j + ?k' - 1"
    then have "?k - 1 - j < ?k' - 1" using assms(5) by linarith
    then have "\<not> terminator (drop j s ! (?k - 1 - j))"
      using key_inner[OF assms(2,4)] by blast
    moreover have "drop j s ! (?k - 1 - j) = s ! (?k - 1)" using assms(5) len by simp
    ultimately show False using t0 by simp
  qed
  ultimately have e: "j + ?k' = ?k" using k by linarith
  show ?thesis
  proof (rule nth_equalityI)
    show "length (drop j K) = length K'" using e by simp
  next
    fix i assume "i < length (drop j K)"
    then have i: "i < ?k'" "j + i < ?k" using e by simp_all
    have "ci_match (K ! (j + i)) (s ! (j + i))" using assms(3) i by (simp add: ci_prefix_iff)
    moreover have "ci_match (K' ! i) (drop j s ! i)" using assms(4) i by (simp add: ci_prefix_iff)
    moreover have "drop j s ! i = s ! (j + i)" using len i by simp
    ultimately have "K ! (j + i) = K' ! i"
      using ci_match_same good_key_nth[OF assms(1) i(2)] good_key_nth[OF assms(2) i(1)]
      by metis
    then show "drop j K ! i = K' ! i" using i by simp
  qed
qed

declare re_sub.simps(2) [simp del]

lemma re_sub_None: "m (c # cs) = None \<Longrightarrow> re_sub m (c # cs) = c # re_sub m cs"
  by (simp add: re_sub.simps(2))

lemma re_sub_Some:
  "m (c # cs) = Some (n, r) \<Longrightarrow> re_sub m (c # cs) = r @ re_sub m (drop (n - 1) cs)"
  by (simp add: re_sub.simps(2))

lemma REDACTED_eq: "REDACTED = [91, 82, 69, 68, 65, 67, 84, 69, 68, 93]"
  by (simp add: REDACTED_def lit_def ord_def)

lemma JWT_REDACTED_eq: "JWT_REDACTED = [91, 74, 87, 84, 95, 82, 69, 68, 65, 67, 84, 69, 68, 93]"
  by (simp add: JWT_REDACTED_def lit_def ord_def)

lemma token_props:
  assumes "token B"
  shows "B \<noteq> []" and "last B = 93" and "hd B = 91"
    and "list_all (\<lambda>c. \<not> terminator c) B" and "list_all nsp B"
    and "list_all (\<lambda>c. c \<noteq> 46) B"
  using assms
  by (auto simp add: token_def REDACTED_eq JWT_REDACTED_eq terminator_def nsp_def is_space_def)

lemma token_suffix_no_key:
  assumes "token B" and "good_key K" and "e < length B"
  shows "\<not> ci_prefix K (drop e B @ y)"
proof
  let ?u = "drop e B"
  assume c: "ci_prefix K (?u @ y)"
  have u: "?u \<noteq> []" "last ?u = 93" using assms(1,3) token_props(2) by simp_all
  show False
  proof (cases "length K \<le> length ?u")
    case True
    have k: "0 < length K" using good_key_length[OF assms(2)] .
    then have "length K - 1 < length ?u" using True by linarith
    then have "(?u @ y) ! (length K - 1) = ?u ! (length K - 1)" by (simp add: nth_append)
    moreover have "?u ! (length K - 1) \<in> set B"
      using \<open>length K - 1 < length ?u\<close> by (metis in_set_dropD nth_mem)
    ultimately have "\<not> terminator ((?u @ y) ! (length K - 1))"
      using token_props(4)[OF assms(1)] by (simp add: list_all_iff)
    then show False using key_last[OF assms(2) c] by simp
  next
    case False
    then have i: "length ?u - 1 < length K" by linarith
    have "length ?u - 1 < length ?u" using u(1) by simp
    then have "(?u @ y) ! (length ?u - 1) = ?u ! (length ?u - 1)" by (simp only: nth_append if_True)
    also have "\<dots> = 93" using u by (simp add: last_conv_nth)
    finally show False using key_chars[OF assms(2) c i] by simp
  qed
qed

lemma re_sub_space: "wf_matcher m \<Longrightarrow> is_space c \<Longrightarrow> re_sub m (c # cs) = c # re_sub m cs"
  by (simp add: wf_matcher_def re_sub_None)

lemma re_sub_nsp:
  assumes "wf_matcher m" and "nsp c"
  shows "re_sub m (c # cs) \<noteq> [] \<and> nsp (hd (re_sub m (c # cs)))"
proof (cases "m (c # cs)")
  case None
  then show ?thesis using assms(2) by (simp add: re_sub_None)
next
  case (Some a)
  obtain n r where a: "a = (n, r)" by (cases a)
  then have "0 < n \<and> r \<noteq> [] \<and> nsp (hd r)" using Some assms(1) by (simp add: wf_matcher_def)
  then show ?thesis using Some a by (simp add: re_sub_Some)
qed

lemma re_sub_dropWhile:
  "wf_matcher m \<Longrightarrow> dropWhile is_space (re_sub m y) = re_sub m (dropWhile is_space y)"
proof (induction y)
  case Nil
  then show ?case by simp
next
  case (Cons c cs)
  show ?case
  proof (cases "is_space c")
    case True
    then show ?thesis using Cons by (simp add: re_sub_space)
  next
    case False
    then have "nsp c" by (simp add: nsp_def)
    then have "re_sub m (c # cs) \<noteq> []" "\<not> is_space (hd (re_sub m (c # cs)))"
      using re_sub_nsp[OF Cons.prems, of c cs] by (simp_all add: nsp_def)
    then have "dropWhile is_space (re_sub m (c # cs)) = re_sub m (c # cs)"
      by (cases "re_sub m (c # cs)") simp_all
    then show ?thesis using False by simp
  qed
qed

lemma head_space_re_sub: "wf_matcher m \<Longrightarrow> head_space z \<Longrightarrow> head_space (re_sub m z)"
  by (cases z) (auto simp add: head_space_def re_sub_space)

lemma head_space_takeWhile: "head_space z \<longleftrightarrow> takeWhile nsp z = []"
  by (cases z) (auto simp add: head_space_def nsp_def)

lemma re_sub_token:
  assumes "wf_matcher m"
  shows "re_sub m (REDACTED @ z) = REDACTED @ re_sub m z"
proof -
  have "\<forall>e<length REDACTED. m (drop e (REDACTED @ z)) = None"
    using assms by (simp add: wf_matcher_def)
  then have "re_sub m (REDACTED @ z)
      = take (length REDACTED) (REDACTED @ z) @ re_sub m (drop (length REDACTED) (REDACTED @ z))"
    by (rule re_sub_copy_prefix)
  then show ?thesis by simp
qed

lemma run_ok_token: "head_space z \<Longrightarrow> takeWhile nsp (REDACTED @ z) = REDACTED"
proof -
  assume "head_space z"
  then have "takeWhile nsp z = []" by (simp add: head_space_takeWhile)
  moreover have "\<forall>c \<in> set REDACTED. nsp c"
    using token_props(5)[of REDACTED] by (simp add: token_def list_all_iff)
  ultimately show ?thesis by (simp add: takeWhile_append2)
qed

lemma run_ok_re_sub:
  assumes "wf_matcher m" and "run_ok y"
  shows "run_ok (re_sub m y)"
proof (cases "takeWhile nsp y = []")
  case True
  then have "head_space (re_sub m y)"
    using head_space_re_sub[OF assms(1)] by (simp add: head_space_takeWhile)
  then show ?thesis by (simp add: run_ok_def head_space_takeWhile)
next
  case False
  then have r: "takeWhile nsp y = REDACTED" using assms(2) by (simp add: run_ok_def)
  let ?z = "dropWhile nsp y"
  have y: "y = REDACTED @ ?z" using r by (metis takeWhile_dropWhile_id)
  have "?z \<noteq> [] \<Longrightarrow> \<not> nsp (hd ?z)" by (rule hd_dropWhile)
  then have hz: "head_space ?z" by (auto simp add: head_space_def nsp_def)
  have "re_sub m y = REDACTED @ re_sub m ?z" using re_sub_token[OF assms(1), of ?z] y by simp
  moreover have "head_space (re_sub m ?z)" using head_space_re_sub[OF assms(1) hz] .
  ultimately show ?thesis by (simp add: run_ok_def run_ok_token)
qed

lemma nsp_eq: "(\<lambda>c. \<not> is_space c) = nsp"
  by (auto simp add: nsp_def)

lemma match_secret_eq:
  "match_secret sp K s =
     (if ci_prefix K s \<and> secret_value sp K s \<noteq> []
      then Some (key_end sp K s + length (secret_value sp K s), take (key_end sp K s) s @ REDACTED)
      else None)"
  by (simp add: match_secret_def secret_value_def key_end_def Let_def nsp_eq)

lemma key_end_ge: "length K \<le> key_end sp K s"
  by (simp add: key_end_def)

lemma match_secret_wf:
  assumes "good_key K"
  shows "wf_matcher (match_secret sp K)"
  unfolding wf_matcher_def
proof (intro conjI allI impI)
  show "match_secret sp K [] = None"
    using assms by (simp add: match_secret_eq ci_prefix_iff good_key_def)
next
  fix c cs assume "is_space c"
  then have "\<not> ci_prefix K (c # cs)"
    using key_chars[OF assms, of "c # cs" 0] good_key_length[OF assms] by (auto simp add: nsp_def)
  then show "match_secret sp K (c # cs) = None" by (simp add: match_secret_eq)
next
  fix s n r assume m: "match_secret sp K s = Some (n, r)"
  then have c: "ci_prefix K s" and n: "n = key_end sp K s + length (secret_value sp K s)"
    and r: "r = take (key_end sp K s) s @ REDACTED"
    by (simp_all add: match_secret_eq split: if_splits)
  have k: "0 < length K" using good_key_length[OF assms] .
  then show "0 < n" using n key_end_ge[of K sp s] by linarith
  show "r \<noteq> []" using r by (simp add: REDACTED_eq)
  have "s \<noteq> []" using c k by (auto simp add: ci_prefix_iff)
  moreover have "0 < key_end sp K s" using k key_end_ge[of K sp s] by linarith
  ultimately have "hd r = s ! 0" using r by (cases s) (auto simp add: take_Suc_conv_app_nth gr0_conv_Suc)
  then show "nsp (hd r)" using key_chars[OF assms c k] by simp
next
  fix e z assume "e < length REDACTED"
  then have "\<not> ci_prefix K (drop e REDACTED @ z)"
    using token_suffix_no_key[of REDACTED K e z] assms by (simp add: token_def)
  then show "match_secret sp K (drop e REDACTED @ z) = None" by (simp add: match_secret_eq)
qed

lemma match_jwt_SomeD:
  assumes "match_jwt s = Some (n, r)"
  shows "\<exists>A B C rest. s = A @ 46 # B @ 46 # C @ rest \<and> A \<noteq> [] \<and> B \<noteq> [] \<and> C \<noteq> []
           \<and> list_all is_jwtchar A \<and> list_all is_jwtchar B \<and> list_all is_jwtchar C
           \<and> n = length A + length B + length C + 2 \<and> r = JWT_REDACTED"
proof -
  let ?A = "takeWhile is_jwtchar s"
  let ?s1 = "dropWhile is_jwtchar s"
  have d1: "drop (length ?A) s = ?s1" by (simp add: dropWhile_eq_drop)
  have A: "?A \<noteq> []" using assms by (auto simp add: match_jwt_def Let_def split: if_splits)
  obtain s2 where s1: "?s1 = 46 # s2"
    using assms A d1 by (auto simp add: match_jwt_def Let_def split: if_splits list.splits)
  let ?B = "takeWhile is_jwtchar s2"
  let ?s3 = "dropWhile is_jwtchar s2"
  have d2: "drop (length ?B) s2 = ?s3" by (simp add: dropWhile_eq_drop)
  have B: "?B \<noteq> []"
    using assms A d1 s1 by (auto simp add: match_jwt_def Let_def split: if_splits list.splits)
  obtain s4 where s3: "?s3 = 46 # s4"
    using assms A d1 s1 B d2
    by (auto simp add: match_jwt_def Let_def split: if_splits list.splits)
  let ?C = "takeWhile is_jwtchar s4"
  have C: "?C \<noteq> []" and n: "n = length ?A + length ?B + length ?C + 2" and r: "r = JWT_REDACTED"
    using assms A d1 s1 B d2 s3
    by (auto simp add: match_jwt_def Let_def split: if_splits list.splits)
  have "s = ?A @ ?s1" by simp
  also have "\<dots> = ?A @ 46 # ?B @ ?s3" using s1 by simp
  also have "\<dots> = ?A @ 46 # ?B @ 46 # ?C @ dropWhile is_jwtchar s4" using s3 by simp
  finally have "s = ?A @ 46 # ?B @ 46 # ?C @ dropWhile is_jwtchar s4" .
  moreover have "list_all is_jwtchar ?A" "list_all is_jwtchar ?B" "list_all is_jwtchar ?C"
    by (auto simp add: list_all_iff dest: set_takeWhileD)
  ultimately show ?thesis using A B C n r by blast
qed

lemma not_jwt_dot: "\<not> is_jwtchar 46"
  by (simp add: is_jwtchar_def)

lemma takeWhile_jwt_dot:
  "list_all is_jwtchar A \<Longrightarrow> takeWhile is_jwtchar (A @ 46 # z) = A"
  by (simp add: list_all_iff takeWhile_append2 not_jwt_dot)

lemma dropWhile_jwt_dot:
  "list_all is_jwtchar A \<Longrightarrow> dropWhile is_jwtchar (A @ 46 # z) = 46 # z"
  by (simp add: list_all_iff dropWhile_append2 not_jwt_dot)

lemma match_jwt_SomeI:
  assumes "A \<noteq> []" "B \<noteq> []" "C \<noteq> []"
    and "list_all is_jwtchar A" "list_all is_jwtchar B" "list_all is_jwtchar C"
  shows "match_jwt (A @ 46 # B @ 46 # C @ z) \<noteq> None"
proof -
  let ?s = "A @ 46 # B @ 46 # C @ z"
  have a: "takeWhile is_jwtchar ?s = A" using assms(4) by (rule takeWhile_jwt_dot)
  have d1: "drop (length A) ?s = 46 # B @ 46 # C @ z" by simp
  have b: "takeWhile is_jwtchar (B @ 46 # C @ z) = B" using assms(5) by (rule takeWhile_jwt_dot)
  have d2: "drop (length B) (B @ 46 # C @ z) = 46 # C @ z" by simp
  have "takeWhile is_jwtchar (C @ z) = C @ takeWhile is_jwtchar z"
    using assms(6) by (simp add: list_all_iff takeWhile_append2)
  then have c: "takeWhile is_jwtchar (C @ z) \<noteq> []" using assms(3) by simp
  show ?thesis
    unfolding match_jwt_def Let_def a d1 using assms(1,2) c by (simp add: b d2)
qed

lemma token_suffix_no_jwt:
  assumes "token B" and "e < length B"
  shows "match_jwt (drop e B @ z) = None"
proof (rule ccontr)
  let ?u = "drop e B"
  assume "match_jwt (?u @ z) \<noteq> None"
  then obtain n r where "match_jwt (?u @ z) = Some (n, r)" by auto
  then obtain A rest where s: "?u @ z = A @ 46 # rest" and A: "A \<noteq> []" "list_all is_jwtchar A"
    using match_jwt_SomeD by blast
  have u: "?u \<noteq> []" "last ?u = 93" using assms token_props(2) by simp_all
  show False
  proof (cases "length A < length ?u")
    case True
    have "(?u @ z) ! length A = 46" using s by simp
    then have "?u ! length A = 46" using True by (simp add: nth_append)
    then have "46 \<in> set B" using True by (metis in_set_dropD nth_mem)
    then show False using token_props(6)[OF assms(1)] by (auto simp add: list_all_iff)
  next
    case False
    have i: "length ?u - 1 < length ?u" using u(1) by simp
    then have "(?u @ z) ! (length ?u - 1) = ?u ! (length ?u - 1)" by (simp only: nth_append if_True)
    also have "\<dots> = 93" using u by (simp add: last_conv_nth)
    finally have "(A @ 46 # rest) ! (length ?u - 1) = 93" using s by simp
    moreover have "length ?u - 1 < length A" using False i by linarith
    ultimately have "A ! (length ?u - 1) = 93" by (simp add: nth_append)
    then have "is_jwtchar 93"
      using A(2) \<open>length ?u - 1 < length A\<close> by (metis list_all_length)
    then show False by (simp add: is_jwtchar_def)
  qed
qed

lemma space_not_jwt: "is_space c \<Longrightarrow> \<not> is_jwtchar c"
  unfolding is_space_def is_jwtchar_def by auto

lemma match_jwt_wf: "wf_matcher match_jwt"
  unfolding wf_matcher_def
proof (intro conjI allI impI)
  show "match_jwt [] = None" by (simp add: match_jwt_def)
next
  fix c cs assume "is_space c"
  then show "match_jwt (c # cs) = None" by (simp add: match_jwt_def space_not_jwt)
next
  fix s n r assume "match_jwt s = Some (n, r)"
  then have "0 < n \<and> r = JWT_REDACTED" using match_jwt_SomeD by fastforce
  then show "0 < n" "r \<noteq> []" "nsp (hd r)"
    by (simp_all add: JWT_REDACTED_eq nsp_def is_space_def)
next
  fix e z assume "e < length REDACTED"
  then show "match_jwt (drop e REDACTED @ z) = None"
    using token_suffix_no_jwt[of REDACTED] by (simp add: token_def)
qed

lemma settled_drop: "settled sp K t \<Longrightarrow> settled sp K (drop j t)"
  by (simp add: settled_def)

lemma settled_head: "settled sp K t \<Longrightarrow> value_ok sp K t"
  unfolding settled_def by (metis drop0)

lemma re_sub_no_match: "(\<forall>e. m (drop e t) = None) \<Longrightarrow> re_sub m t = t"
  using re_sub_copy_prefix[of "length t" m t] by simp

lemma settled_fixed:
  assumes "good_key K"
  shows "settled sp K t \<Longrightarrow> re_sub (match_secret sp K) t = t"
proof (induction "match_secret sp K" t rule: re_sub.induct)
  case 1
  then show ?case by simp
next
  case (2 c cs)
  let ?s = "c # cs"
  show ?case
  proof (cases "match_secret sp K ?s")
    case None
    have "settled sp K cs" using settled_drop[OF 2(3), of 1] by simp
    then show ?thesis using 2(1) None by (simp add: re_sub_None)
  next
    case (Some a)
    obtain n r where a: "a = (n, r)" by (cases a)
    let ?ke = "key_end sp K ?s"
    have c: "ci_prefix K ?s" and v: "secret_value sp K ?s \<noteq> []"
      and n: "n = ?ke + length (secret_value sp K ?s)"
      and r: "r = take ?ke ?s @ REDACTED"
      using Some a by (simp_all add: match_secret_eq split: if_splits)
    have "run_ok (drop ?ke ?s)" using settled_head[OF 2(3)] c by (simp add: value_ok_def)
    then have val: "secret_value sp K ?s = REDACTED"
      using v by (simp add: run_ok_def secret_value_def)
    have "take n ?s = take ?ke ?s @ take (length (secret_value sp K ?s)) (drop ?ke ?s)"
      unfolding n by (rule take_add)
    also have "take (length (secret_value sp K ?s)) (drop ?ke ?s) = secret_value sp K ?s"
      unfolding secret_value_def by (simp add: takeWhile_eq_take[symmetric])
    finally have tr: "take n ?s = r" using r val by simp
    have n0: "0 < n" using n v by simp
    have "settled sp K (drop (n - 1) cs)" using settled_drop[OF 2(3), of n] n0
      by (simp add: drop_Cons')
    then have "re_sub (match_secret sp K) (drop (n - 1) cs) = drop (n - 1) cs"
      using 2(2) Some a by simp
    then have "re_sub (match_secret sp K) ?s = take n ?s @ drop (n - 1) cs"
      using Some a tr by (simp add: re_sub_Some)
    also have "drop (n - 1) cs = drop n ?s" using n0 by (simp add: drop_Cons')
    finally show ?thesis by simp
  qed
qed

lemma scan_all:
  assumes head: "\<And>t. SC t \<Longrightarrow> P (re_sub m t)"
    and inner: "\<And>t n r e y. m t = Some (n, r) \<Longrightarrow> 0 < e \<Longrightarrow> e < length r \<Longrightarrow> P (drop e r @ y)"
    and closed: "\<And>t j. SC t \<Longrightarrow> SC (drop j t)"
    and nil: "P []"
  shows "SC t \<Longrightarrow> P (drop e (re_sub m t))"
proof (induction "length t" arbitrary: t e rule: less_induct)
  case less
  show ?case
  proof (cases t)
    case Nil
    then show ?thesis using nil by simp
  next
    case (Cons c cs)
    have cs: "SC cs" using closed[OF less.prems, of 1] Cons by simp
    show ?thesis
    proof (cases "e = 0")
      case True
      then show ?thesis using head[OF less.prems] by simp
    next
      case e: False
      show ?thesis
      proof (cases "m (c # cs)")
        case None
        obtain e' where e': "e = Suc e'" using e by (cases e) auto
        have "P (drop e' (re_sub m cs))" using less.hyps[of cs e'] cs Cons by simp
        then show ?thesis using None e' Cons by (simp add: re_sub_None)
      next
        case (Some a)
        obtain n r where a: "a = (n, r)" by (cases a)
        have out: "re_sub m (c # cs) = r @ re_sub m (drop (n - 1) cs)"
          using Some a by (simp add: re_sub_Some)
        show ?thesis
        proof (cases "e < length r")
          case True
          then show ?thesis using inner[of "c # cs" n r e] Some a e out Cons by simp
        next
          case False
          have "SC (drop (n - 1) cs)" using closed[OF cs] .
          then have "P (drop (e - length r) (re_sub m (drop (n - 1) cs)))"
            using less.hyps[of "drop (n - 1) cs" "e - length r"] Cons by simp
          then show ?thesis using False out Cons by simp
        qed
      qed
    qed
  qed
qed

lemma drop_key_end:
  "drop (key_end sp K x) x
     = (if sp then dropWhile is_space (drop (length K) x) else drop (length K) x)"
proof -
  have "drop (length (takeWhile is_space (drop (length K) x))) (drop (length K) x)
          = dropWhile is_space (drop (length K) x)"
    by (simp add: dropWhile_eq_drop)
  then show ?thesis by (simp add: key_end_def add.commute)
qed

lemma ci_prefix_cong:
  assumes "take (length K) s = take (length K) s'"
  shows "ci_prefix K s \<longleftrightarrow> ci_prefix K s'"
proof -
  have l: "length K \<le> length s \<longleftrightarrow> length K \<le> length s'"
    using assms by (metis length_take min.absorb_iff2 min.cobounded2)
  have n: "\<And>i. i < length K \<Longrightarrow> s ! i = s' ! i"
    using assms by (metis nth_take)
  show ?thesis using l n by (auto simp add: ci_prefix_iff)
qed

lemma first_match:
  "(\<forall>e<k. m (drop e t) = None)
   \<or> (\<exists>j<k. m (drop j t) \<noteq> None \<and> (\<forall>e<j. m (drop e t) = None))"
proof (cases "\<forall>e<k. m (drop e t) = None")
  case True
  then show ?thesis by simp
next
  case False
  then have ex: "\<exists>j. j < k \<and> m (drop j t) \<noteq> None" by auto
  define j where "j = (LEAST j. j < k \<and> m (drop j t) \<noteq> None)"
  have "j < k \<and> m (drop j t) \<noteq> None" unfolding j_def using ex by (rule LeastI_ex)
  moreover have "\<forall>e<j. m (drop e t) = None"
  proof (intro allI impI)
    fix e assume "e < j"
    then have "\<not> (e < k \<and> m (drop e t) \<noteq> None)" unfolding j_def by (rule not_less_Least)
    moreover have "e < k" using \<open>e < j\<close> \<open>j < k \<and> _\<close> by linarith
    ultimately show "m (drop e t) = None" by simp
  qed
  ultimately show ?thesis by blast
qed

lemma window_clear:
  assumes "wf_matcher m" and "good_key K"
    and "\<forall>e<length K. m (drop e t) = None" and "ci_prefix K (re_sub m t)"
  shows "ci_prefix K t"
    and "drop (key_end sp K (re_sub m t)) (re_sub m t) = re_sub m (drop (key_end sp K t) t)"
proof -
  let ?k = "length K"
  have out: "re_sub m t = take ?k t @ re_sub m (drop ?k t)"
    using assms(3) by (rule re_sub_copy_prefix)
  have len: "?k \<le> length t"
  proof (rule ccontr)
    assume "\<not> ?k \<le> length t"
    then have "re_sub m t = t" using out by simp
    then show False using assms(4) \<open>\<not> ?k \<le> length t\<close> by (simp add: ci_prefix_iff)
  qed
  have "take ?k (re_sub m t) = take ?k t" using out len by (metis append_eq_conv_conj length_take min.absorb2)
  then show c: "ci_prefix K t" using assms(4) ci_prefix_cong by blast
  have d: "drop ?k (re_sub m t) = re_sub m (drop ?k t)"
    using out len by (metis append_eq_conv_conj length_take min.absorb2)
  show "drop (key_end sp K (re_sub m t)) (re_sub m t) = re_sub m (drop (key_end sp K t) t)"
    by (simp add: drop_key_end d re_sub_dropWhile[OF assms(1)])
qed

lemma window_clear_ok:
  assumes "wf_matcher m" and "good_key K"
    and "\<forall>e<length K. m (drop e t) = None" and "ci_prefix K t \<Longrightarrow> run_ok (drop (key_end sp K t) t)"
  shows "value_ok sp K (re_sub m t)"
  unfolding value_ok_def
proof
  assume c: "ci_prefix K (re_sub m t)"
  have "run_ok (drop (key_end sp K t) t)"
    using assms(4) window_clear(1)[OF assms(1,2,3) c] by simp
  then have "run_ok (re_sub m (drop (key_end sp K t) t))" by (rule run_ok_re_sub[OF assms(1)])
  then show "run_ok (drop (key_end sp K (re_sub m t)) (re_sub m t))"
    using window_clear(2)[OF assms(1,2,3) c] by simp
qed

lemma match_position:
  assumes "wf_matcher m" and "m (drop j t) = Some (n, r)" and "\<forall>e<j. m (drop e t) = None"
  shows "j < length t" and "re_sub m t = take j t @ r @ re_sub m (drop (j + n) t)"
proof -
  show j: "j < length t"
  proof (rule ccontr)
    assume "\<not> j < length t"
    then have "drop j t = []" by simp
    then show False using assms(1,2) by (simp add: wf_matcher_def)
  qed
  then obtain c cs where d: "drop j t = c # cs" by (cases "drop j t") auto
  have n: "0 < n" using assms(1,2) by (auto simp add: wf_matcher_def)
  have "drop (n - 1) cs = drop n (drop j t)" using d n by (simp add: drop_Cons')
  also have "\<dots> = drop (j + n) t" by (simp add: add.commute)
  finally have "drop (n - 1) cs = drop (j + n) t" .
  moreover have "re_sub m (drop j t) = r @ re_sub m (drop (n - 1) cs)"
    using d assms(2) re_sub_Some[of m c cs n r] by simp
  ultimately have "re_sub m (drop j t) = r @ re_sub m (drop (j + n) t)" by simp
  then show "re_sub m t = take j t @ r @ re_sub m (drop (j + n) t)"
    using re_sub_copy_prefix[OF assms(3)] by simp
qed

lemma jwt_in_window:
  assumes "good_key K" and "j < length K" and "match_jwt (drop j t) = Some (n, r)"
    and "\<forall>e<j. match_jwt (drop e t) = None"
  shows "\<not> ci_prefix K (re_sub match_jwt t)"
proof
  assume c: "ci_prefix K (re_sub match_jwt t)"
  have r: "r = JWT_REDACTED" using assms(3) match_jwt_SomeD by blast
  have j: "j < length t"
    and out: "re_sub match_jwt t = take j t @ r @ re_sub match_jwt (drop (j + n) t)"
    using match_position[OF match_jwt_wf assms(3,4)] by simp_all
  have "re_sub match_jwt t ! j = 91"
    using out j r by (simp add: nth_append JWT_REDACTED_eq)
  then show False using key_chars[OF assms(1) c assms(2)] by simp
qed

lemma value_ok_Nil: "good_key K \<Longrightarrow> value_ok sp K []"
  by (simp add: value_ok_def ci_prefix_iff good_key_def)

lemma preserve_jwt:
  assumes "good_key K" and "settled sp K t"
  shows "settled sp K (re_sub match_jwt t)"
  unfolding settled_def
proof
  fix e
  show "value_ok sp K (drop e (re_sub match_jwt t))"
  proof (rule scan_all[where SC = "settled sp K" and P = "value_ok sp K" and m = match_jwt])
    fix t assume st: "settled sp K t"
    show "value_ok sp K (re_sub match_jwt t)"
    proof -
      consider (clear) "\<forall>e<length K. match_jwt (drop e t) = None"
        | (hit) j where "j < length K" "match_jwt (drop j t) \<noteq> None"
            "\<forall>e<j. match_jwt (drop e t) = None"
        using first_match[of "length K" match_jwt t] by blast
      then show ?thesis
      proof cases
        case clear
        show ?thesis
          using window_clear_ok[OF match_jwt_wf assms(1) clear] settled_head[OF st]
          by (simp add: value_ok_def)
      next
        case hit
        then obtain n r where "match_jwt (drop j t) = Some (n, r)" by auto
        then have "\<not> ci_prefix K (re_sub match_jwt t)"
          using jwt_in_window[OF assms(1) hit(1) _ hit(3)] by blast
        then show ?thesis by (simp add: value_ok_def)
      qed
    qed
  next
    fix t n r e y
    assume "match_jwt t = Some (n, r)" "0 < e" "e < length r"
    moreover have "token JWT_REDACTED" by (simp add: token_def)
    ultimately have "\<not> ci_prefix K (drop e r @ y)"
      using token_suffix_no_key[OF _ assms(1), of JWT_REDACTED e y] match_jwt_SomeD by blast
    then show "value_ok sp K (drop e r @ y)" by (simp add: value_ok_def)
  next
    fix t j assume "settled sp K t"
    then show "settled sp K (drop j t)" by (rule settled_drop)
  next
    show "value_ok sp K []" by (rule value_ok_Nil[OF assms(1)])
  next
    show "settled sp K t" by (rule assms(2))
  qed
qed

lemma secret_shape:
  assumes "match_secret sp K s = Some (n, r)"
  shows "ci_prefix K s"
    and "\<exists>W. r = take (length K) s @ W @ REDACTED \<and> list_all is_space W
           \<and> take (key_end sp K s) s = take (length K) s @ W
           \<and> W = (if sp then takeWhile is_space (drop (length K) s) else [])"
    and "n = key_end sp K s + length (secret_value sp K s)"
    and "r = take (key_end sp K s) s @ REDACTED"
    and "head_space (drop n s)"
proof -
  show c: "ci_prefix K s" and n: "n = key_end sp K s + length (secret_value sp K s)"
    and r: "r = take (key_end sp K s) s @ REDACTED"
    using assms by (simp_all add: match_secret_eq split: if_splits)
  let ?W = "if sp then takeWhile is_space (drop (length K) s) else []"
  have "take (key_end sp K s) s = take (length K) s @ take (length ?W) (drop (length K) s)"
    unfolding key_end_def by (simp add: take_add)
  also have "take (length ?W) (drop (length K) s) = ?W"
    by (simp add: takeWhile_eq_take[symmetric])
  finally have t: "take (key_end sp K s) s = take (length K) s @ ?W" .
  have "list_all is_space ?W" by (auto simp add: list_all_iff dest: set_takeWhileD)
  then show "\<exists>W. r = take (length K) s @ W @ REDACTED \<and> list_all is_space W
           \<and> take (key_end sp K s) s = take (length K) s @ W
           \<and> W = (if sp then takeWhile is_space (drop (length K) s) else [])"
    using r t by simp
  have "drop n s = drop (length (secret_value sp K s)) (drop (key_end sp K s) s)"
    unfolding n by (simp add: add.commute)
  also have "\<dots> = dropWhile nsp (drop (key_end sp K s) s)"
    unfolding secret_value_def by (simp add: dropWhile_eq_drop)
  finally have d: "drop n s = dropWhile nsp (drop (key_end sp K s) s)" .
  have "drop n s \<noteq> [] \<Longrightarrow> \<not> nsp (hd (drop n s))" unfolding d by (rule hd_dropWhile)
  then show "head_space (drop n s)" by (auto simp add: head_space_def nsp_def)
qed

lemma key_before_gap:
  assumes "good_key K" and "list_all is_space W" and "ci_prefix K (b @ W @ REDACTED @ Z)"
  shows "length K \<le> length b"
proof (rule ccontr)
  assume "\<not> length K \<le> length b"
  then have i: "length b < length K" by simp
  have "(b @ W @ REDACTED @ Z) ! length b = hd (W @ REDACTED)"
    by (cases W) (simp_all add: nth_append REDACTED_eq)
  moreover have "is_space (hd (W @ REDACTED)) \<or> hd (W @ REDACTED) = 91"
    using assms(2) by (cases W) (simp_all add: REDACTED_eq)
  ultimately show False using key_chars[OF assms(1,3) i] by (auto simp add: nsp_def)
qed

lemma secret_in_window:
  assumes "good_key K" and "good_key K'" and "j < length K"
    and "match_secret sp' K' (drop j t) = Some (n, r)"
    and "\<forall>e<j. match_secret sp' K' (drop e t) = None"
    and "ci_prefix K (re_sub (match_secret sp' K') t)"
  shows "drop j K = K'" and "ci_prefix K t"
proof -
  let ?m = "match_secret sp' K'"
  let ?k' = "length K'"
  have jl: "j < length t" and out: "re_sub ?m t = take j t @ r @ re_sub ?m (drop (j + n) t)"
    using match_position[OF match_secret_wf[OF assms(2)] assms(4,5)] by simp_all
  have c': "ci_prefix K' (drop j t)" using secret_shape(1)[OF assms(4)] .
  then have "?k' \<le> length t - j" by (simp add: ci_prefix_iff)
  then have l': "j + ?k' \<le> length t" using jl by linarith
  obtain W where r: "r = take ?k' (drop j t) @ W @ REDACTED" and W: "list_all is_space W"
    using secret_shape(2)[OF assms(4)] by blast
  have "take j t @ take ?k' (drop j t) = take (j + ?k') t" by (simp add: take_add)
  then have X: "re_sub ?m t = take (j + ?k') t @ W @ REDACTED @ re_sub ?m (drop (j + n) t)"
    using out r by simp
  have "ci_prefix K (take (j + ?k') t @ W @ REDACTED @ re_sub ?m (drop (j + n) t))"
    using assms(6) X by simp
  then have "length K \<le> length (take (j + ?k') t)"
    by (rule key_before_gap[OF assms(1) W])
  then have kl: "length K \<le> j + ?k'" using l' by simp
  have "take (length K) (re_sub ?m t) = take (length K) (take (j + ?k') t)"
    using X kl l' by simp
  also have "\<dots> = take (length K) t" using kl by (simp add: min.absorb1)
  finally show c: "ci_prefix K t" using assms(6) ci_prefix_cong by blast
  show "drop j K = K'" using key_overlap[OF assms(1,2) c c' assms(3)] .
qed

lemma secret_self_ok:
  assumes "good_key K" and "match_secret sp K t = Some (n, r)"
  shows "value_ok sp K (re_sub (match_secret sp K) t)"
proof -
  let ?m = "match_secret sp K"
  let ?k = "length K"
  have wf: "wf_matcher ?m" using match_secret_wf[OF assms(1)] .
  have "\<forall>e<(0::nat). ?m (drop e t) = None" by simp
  then have out: "re_sub ?m t = r @ re_sub ?m (drop n t)"
    using match_position(2)[OF wf, of 0 t n r] assms(2) by simp
  obtain W where r: "r = take ?k t @ W @ REDACTED" and W: "list_all is_space W"
    using secret_shape(2)[OF assms(2)] by blast
  have kl: "?k \<le> length t" using secret_shape(1)[OF assms(2)] by (simp add: ci_prefix_iff)
  let ?Z = "re_sub ?m (drop n t)"
  have Z: "head_space ?Z" using head_space_re_sub[OF wf secret_shape(5)[OF assms(2)]] .
  have X: "re_sub ?m t = take ?k t @ W @ REDACTED @ ?Z" using out r by simp
  then have d: "drop ?k (re_sub ?m t) = W @ REDACTED @ ?Z" using kl by simp
  have w0: "sp \<or> W = []" using secret_shape(2)[OF assms(2)] r by auto
  have "dropWhile is_space (W @ REDACTED @ ?Z) = REDACTED @ ?Z"
    using W by (simp add: list_all_iff dropWhile_append3 REDACTED_eq is_space_def)
  then have "drop (key_end sp K (re_sub ?m t)) (re_sub ?m t) = REDACTED @ ?Z"
    using w0 d by (auto simp add: drop_key_end)
  then show ?thesis using run_ok_token[OF Z] by (simp add: value_ok_def run_ok_def)
qed

lemma secret_inner:
  assumes "good_key K" and "good_key K'" and "\<forall>e>0. drop e K' \<noteq> K"
    and "match_secret sp' K' t = Some (n, r)" and "0 < e" and "e < length r"
  shows "\<not> ci_prefix K (drop e r @ y)"
proof
  assume c: "ci_prefix K (drop e r @ y)"
  let ?k' = "length K'"
  have c': "ci_prefix K' t" using secret_shape(1)[OF assms(4)] .
  then have l': "?k' \<le> length t" by (simp add: ci_prefix_iff)
  obtain W where r: "r = take ?k' t @ W @ REDACTED" and W: "list_all is_space W"
    using secret_shape(2)[OF assms(4)] by blast
  have k: "0 < length K" using good_key_length[OF assms(1)] .
  show False
  proof (cases "e < ?k'")
    case True
    have x: "drop e r @ y = drop e (take ?k' t) @ W @ REDACTED @ y"
      using r True l' by simp
    have "ci_prefix K (drop e (take ?k' t) @ W @ REDACTED @ y)" using c x by simp
    then have "length K \<le> length (drop e (take ?k' t))"
      by (rule key_before_gap[OF assms(1) W])
    then have "length K \<le> ?k' - e" using l' by simp
    then have kl: "e + length K \<le> ?k'" using True by linarith
    have "take (length K) (drop e r @ y) = take (length K) (drop e (take ?k' t))"
      using x kl l' by simp
    also have "\<dots> = take (length K) (drop e t)" using kl by (simp add: drop_take min.absorb1)
    finally have "ci_prefix K (drop e t)" using c ci_prefix_cong by blast
    then have "drop e K' = K" using key_overlap[OF assms(2,1) c' _ True] by simp
    then show False using assms(3,5) by simp
  next
    case False
    then have d: "drop e r = drop (e - ?k') (W @ REDACTED)" using r l' by simp
    show False
    proof (cases "e - ?k' < length W")
      case True
      then have "drop e r @ y = drop (e - ?k') W @ REDACTED @ y" using d by simp
      moreover have "drop (e - ?k') W \<noteq> []" using True by simp
      ultimately have "(drop e r @ y) ! 0 = hd (drop (e - ?k') W)"
        by (cases "drop (e - ?k') W") simp_all
      moreover have "hd (drop (e - ?k') W) \<in> set W"
        using True by (metis \<open>drop (e - ?k') W \<noteq> []\<close> hd_in_set in_set_dropD)
      ultimately have "is_space ((drop e r @ y) ! 0)" using W by (simp add: list_all_iff)
      then show False using key_chars[OF assms(1) c k] by (simp add: nsp_def)
    next
      case False
      then have "drop e r = drop (e - ?k' - length W) REDACTED" using d by simp
      moreover have "length r = ?k' + length W + length REDACTED" using r l' by simp
      moreover have "0 < length REDACTED" by (simp add: REDACTED_eq)
      ultimately have dr: "drop e r = drop (e - ?k' - length W) REDACTED"
        and el: "e - ?k' - length W < length REDACTED"
        using assms(6) by (simp, linarith)
      from dr el show False
        using token_suffix_no_key[of REDACTED K "e - ?k' - length W" y] assms(1) c
        by (simp add: token_def)
    qed
  qed
qed

lemma establish:
  assumes "good_key K"
  shows "settled sp K (re_sub (match_secret sp K) t)"
  unfolding settled_def
proof
  fix e
  let ?m = "match_secret sp K"
  have wf: "wf_matcher ?m" using match_secret_wf[OF assms] .
  show "value_ok sp K (drop e (re_sub ?m t))"
  proof (rule scan_all[where SC = "\<lambda>t. True" and P = "value_ok sp K" and m = ?m])
    fix t
    show "value_ok sp K (re_sub ?m t)"
    proof (cases "?m t")
      case None
      consider (clear) "\<forall>e<length K. ?m (drop e t) = None"
        | (hit) j where "j < length K" "?m (drop j t) \<noteq> None" "\<forall>e<j. ?m (drop e t) = None"
        using first_match[of "length K" ?m t] by blast
      then show ?thesis
      proof cases
        case clear
        have "ci_prefix K t \<Longrightarrow> run_ok (drop (key_end sp K t) t)"
        proof -
          assume "ci_prefix K t"
          then have "secret_value sp K t = []" using None by (simp add: match_secret_eq split: if_splits)
          then show ?thesis by (simp add: run_ok_def secret_value_def)
        qed
        then show ?thesis using window_clear_ok[OF wf assms clear] by simp
      next
        case hit
        then obtain n r where s: "?m (drop j t) = Some (n, r)" by auto
        have "\<not> ci_prefix K (re_sub ?m t)"
        proof
          assume c: "ci_prefix K (re_sub ?m t)"
          have "drop j K = K" using secret_in_window(1)[OF assms assms hit(1) s hit(3) c] .
          then have "length (drop j K) = length K" by simp
          then have "j = 0" using hit(1) by simp
          then show False using s None by simp
        qed
        then show ?thesis by (simp add: value_ok_def)
      qed
    next
      case (Some a)
      obtain n r where "a = (n, r)" by (cases a)
      then show ?thesis using secret_self_ok[OF assms] Some by simp
    qed
  next
    fix t n r e y
    assume "?m t = Some (n, r)" "0 < e" "e < length r"
    moreover have "\<forall>e>0. drop e K \<noteq> K"
    proof (intro allI impI notI)
      fix e :: nat assume "0 < e" "drop e K = K"
      then have "length (drop e K) = length K" by simp
      then have "length K - e = length K" by simp
      then show False using \<open>0 < e\<close> good_key_length[OF assms] by linarith
    qed
    ultimately have "\<not> ci_prefix K (drop e r @ y)"
      using secret_inner[OF assms assms] by blast
    then show "value_ok sp K (drop e r @ y)" by (simp add: value_ok_def)
  next
    show "value_ok sp K []" by (rule value_ok_Nil[OF assms])
  qed simp_all
qed

lemma preserve_secret:
  assumes "good_key K" and "good_key K'" and "unrelated K K'" and "settled sp K t"
  shows "settled sp K (re_sub (match_secret sp' K') t)"
  unfolding settled_def
proof
  fix e
  let ?m = "match_secret sp' K'"
  have wf: "wf_matcher ?m" using match_secret_wf[OF assms(2)] .
  show "value_ok sp K (drop e (re_sub ?m t))"
  proof (rule scan_all[where SC = "settled sp K" and P = "value_ok sp K" and m = ?m])
    fix t assume st: "settled sp K t"
    consider (clear) "\<forall>e<length K. ?m (drop e t) = None"
      | (hit) j where "j < length K" "?m (drop j t) \<noteq> None" "\<forall>e<j. ?m (drop e t) = None"
      using first_match[of "length K" ?m t] by blast
    then show "value_ok sp K (re_sub ?m t)"
    proof cases
      case clear
      show ?thesis
        using window_clear_ok[OF wf assms(1) clear] settled_head[OF st] by (simp add: value_ok_def)
    next
      case hit
      then obtain n r where s: "?m (drop j t) = Some (n, r)" by auto
      have "\<not> ci_prefix K (re_sub ?m t)"
        using secret_in_window(1)[OF assms(1,2) hit(1) s hit(3)] assms(3)
        by (auto simp add: unrelated_def)
      then show ?thesis by (simp add: value_ok_def)
    qed
  next
    fix t n r e y
    assume "?m t = Some (n, r)" "0 < e" "e < length r"
    moreover have "\<forall>e>0. drop e K' \<noteq> K" using assms(3) by (simp add: unrelated_def)
    ultimately have "\<not> ci_prefix K (drop e r @ y)"
      using secret_inner[OF assms(1,2)] by blast
    then show "value_ok sp K (drop e r @ y)" by (simp add: value_ok_def)
  next
    fix t j assume "settled sp K t"
    then show "settled sp K (drop j t)" by (rule settled_drop)
  next
    show "value_ok sp K []" by (rule value_ok_Nil[OF assms(1)])
  next
    show "settled sp K t" by (rule assms(4))
  qed
qed

lemma jwt_head_free: "match_jwt (re_sub match_jwt t) = None"
proof (rule ccontr)
  let ?X = "re_sub match_jwt t"
  assume "match_jwt ?X \<noteq> None"
  then obtain n r where s: "match_jwt ?X = Some (n, r)" by auto
  then obtain A B C rest where X: "?X = A @ 46 # B @ 46 # C @ rest"
    and ne: "A \<noteq> []" "B \<noteq> []" "C \<noteq> []"
    and jw: "list_all is_jwtchar A" "list_all is_jwtchar B" "list_all is_jwtchar C"
    and n: "n = length A + length B + length C + 2"
    using match_jwt_SomeD by blast
  define M where "M = A @ 46 # B @ 46 # C"
  have XM: "?X = M @ rest" using X by (simp add: M_def)
  have lM: "length M = n" using n by (simp add: M_def)
  have sM: "\<And>c. c \<in> set M \<Longrightarrow> is_jwtchar c \<or> c = 46"
    using jw by (auto simp add: M_def list_all_iff)
  have inM: "\<And>i. i < n \<Longrightarrow> is_jwtchar (?X ! i) \<or> ?X ! i = 46"
  proof -
    fix i assume "i < n"
    then have "?X ! i = M ! i" "M ! i \<in> set M" using XM lM by (simp_all add: nth_append)
    then show "is_jwtchar (?X ! i) \<or> ?X ! i = 46" using sM by simp
  qed
  consider (clear) "\<forall>e<n. match_jwt (drop e t) = None"
    | (hit) j where "j < n" "match_jwt (drop j t) \<noteq> None" "\<forall>e<j. match_jwt (drop e t) = None"
    using first_match[of n match_jwt t] by blast
  then show False
  proof cases
    case clear
    have out: "?X = take n t @ re_sub match_jwt (drop n t)"
      using clear by (rule re_sub_copy_prefix)
    have len: "n \<le> length t"
    proof (rule ccontr)
      assume "\<not> n \<le> length t"
      then have "?X = t" "length t < n" using out by simp_all
      then show False using XM lM by (metis length_append not_add_less1)
    qed
    have "take n ?X = take n t" using out len by (metis append_eq_conv_conj length_take min.absorb2)
    moreover have "take n ?X = M" using XM lM by (metis append_eq_conv_conj)
    ultimately have "t = M @ drop n t" by (metis append_take_drop_id)
    then have "t = A @ 46 # B @ 46 # C @ drop n t" by (simp add: M_def)
    then have "match_jwt t \<noteq> None" using match_jwt_SomeI[OF ne jw, of "drop n t"] by simp
    moreover have "0 < n" using n by simp
    ultimately show False using clear by (metis drop0)
  next
    case hit
    then obtain n' r' where s': "match_jwt (drop j t) = Some (n', r')" by auto
    have r': "r' = JWT_REDACTED" using s' match_jwt_SomeD by blast
    have j: "j < length t"
      and out: "?X = take j t @ r' @ re_sub match_jwt (drop (j + n') t)"
      using match_position[OF match_jwt_wf s' hit(3)] by simp_all
    have "?X ! j = 91" using out j r' by (simp add: nth_append JWT_REDACTED_eq)
    then show False using inM[OF hit(1)] by (simp add: is_jwtchar_def)
  qed
qed

lemma establish_jwt: "jwt_free (re_sub match_jwt t)"
  unfolding jwt_free_def
proof
  fix e
  show "match_jwt (drop e (re_sub match_jwt t)) = None"
  proof (rule scan_all[where SC = "\<lambda>t. True" and P = "\<lambda>x. match_jwt x = None" and m = match_jwt])
    fix t show "match_jwt (re_sub match_jwt t) = None" by (rule jwt_head_free)
  next
    fix t n r e y
    assume "match_jwt t = Some (n, r)" "0 < e" "e < length r"
    moreover have "token JWT_REDACTED" by (simp add: token_def)
    ultimately show "match_jwt (drop e r @ y) = None"
      using token_suffix_no_jwt[of JWT_REDACTED e y] match_jwt_SomeD by blast
  next
    show "match_jwt [] = None" by (simp add: match_jwt_def)
  qed simp_all
qed

lemma jwt_free_fixed: "jwt_free t \<Longrightarrow> re_sub match_jwt t = t"
  unfolding jwt_free_def by (rule re_sub_no_match)

lemma KEY_AUTH_eq: "KEY_AUTH = [97,117,116,104,111,114,105,122,97,116,105,111,110,58]"
  by (simp add: KEY_AUTH_def lit_def ord_def)

lemma KEY_PASS_eq: "KEY_PASS = [112,97,115,115,119,111,114,100,61]"
  by (simp add: KEY_PASS_def lit_def ord_def)

lemma KEY_AWS_eq:
  "KEY_AWS = [97,119,115,95,115,101,99,114,101,116,95,97,99,99,101,115,115,95,107,101,121,61]"
  by (simp add: KEY_AWS_def lit_def ord_def)

lemma good_keys: "good_key KEY_AUTH" "good_key KEY_PASS" "good_key KEY_AWS"
  by (simp_all add: good_key_def KEY_AUTH_eq KEY_PASS_eq KEY_AWS_eq pat_char_def terminator_def)

lemma unrelated_by_last:
  assumes "K \<noteq> []" and "K' \<noteq> []" and "last K \<noteq> last K'"
  shows "unrelated K K'"
  unfolding unrelated_def
proof (intro allI conjI notI)
  fix e assume "drop e K = K'"
  then have "last (drop e K) = last K'" "drop e K \<noteq> []" using assms(2) by simp_all
  then show False using assms(3) by (simp add: last_drop)
next
  fix e assume "drop e K' = K"
  then have "last (drop e K') = last K" "drop e K' \<noteq> []" using assms(1) by simp_all
  then show False using assms(3) by (simp add: last_drop)
qed

lemma unrelated_auth_pass: "unrelated KEY_AUTH KEY_PASS"
  by (rule unrelated_by_last) (simp_all add: KEY_AUTH_eq KEY_PASS_eq)

lemma unrelated_auth_aws: "unrelated KEY_AUTH KEY_AWS"
  by (rule unrelated_by_last) (simp_all add: KEY_AUTH_eq KEY_AWS_eq)

lemma unrelated_pass_aws: "unrelated KEY_PASS KEY_AWS"
  unfolding unrelated_def
proof (intro allI conjI notI)
  fix e assume "drop e KEY_PASS = KEY_AWS"
  then have "length (drop e KEY_PASS) = length KEY_AWS" by simp
  then show False by (simp add: KEY_PASS_eq KEY_AWS_eq)
next
  fix e assume d: "drop e KEY_AWS = KEY_PASS"
  then have "length (drop e KEY_AWS) = length KEY_PASS" by simp
  then have "e = 13" by (simp add: KEY_PASS_eq KEY_AWS_eq)
  then show False using d by (simp add: KEY_PASS_eq KEY_AWS_eq)
qed

lemma unrelated_sym: "unrelated K K' \<Longrightarrow> unrelated K' K"
  by (auto simp add: unrelated_def)

lemma redact_unfold:
  "redact t = re_sub match_jwt (re_sub (match_secret False KEY_AWS)
                (re_sub (match_secret False KEY_PASS) (re_sub (match_secret True KEY_AUTH) t)))"
  by (simp add: redact_def REDACTIONS_def KEY_AUTH_def KEY_PASS_def KEY_AWS_def)

text \<open>
  C5. Redaction is idempotent: for every text, applying the four rewrites of
  \<^verbatim>\<open>_redact\<close> in their order a second time changes nothing. After the first pass every
  key has no value or \<^verbatim>\<open>[REDACTED]\<close> as its value, and the three-segment pattern matches
  nowhere; a later rewrite does not undo what an earlier one has settled.
\<close>

theorem redact_idempotent: "redact (redact t) = redact t"
proof -
  let ?m1 = "match_secret True KEY_AUTH" and ?m2 = "match_secret False KEY_PASS"
  let ?m3 = "match_secret False KEY_AWS"
  let ?t1 = "re_sub ?m1 t"
  let ?t2 = "re_sub ?m2 ?t1"
  let ?t3 = "re_sub ?m3 ?t2"
  let ?t4 = "re_sub match_jwt ?t3"
  have "settled True KEY_AUTH ?t1" by (rule establish[OF good_keys(1)])
  then have "settled True KEY_AUTH ?t2"
    by (rule preserve_secret[OF good_keys(1) good_keys(2) unrelated_auth_pass])
  then have "settled True KEY_AUTH ?t3"
    by (rule preserve_secret[OF good_keys(1) good_keys(3) unrelated_auth_aws])
  then have s1: "settled True KEY_AUTH ?t4" by (rule preserve_jwt[OF good_keys(1)])
  have "settled False KEY_PASS ?t2" by (rule establish[OF good_keys(2)])
  then have "settled False KEY_PASS ?t3"
    by (rule preserve_secret[OF good_keys(2) good_keys(3) unrelated_pass_aws])
  then have s2: "settled False KEY_PASS ?t4" by (rule preserve_jwt[OF good_keys(2)])
  have "settled False KEY_AWS ?t3" by (rule establish[OF good_keys(3)])
  then have s3: "settled False KEY_AWS ?t4" by (rule preserve_jwt[OF good_keys(3)])
  have s4: "jwt_free ?t4" by (rule establish_jwt)
  have "redact ?t4 = ?t4"
    unfolding redact_unfold[of ?t4]
    by (simp only: settled_fixed[OF good_keys(1) s1] settled_fixed[OF good_keys(2) s2]
        settled_fixed[OF good_keys(3) s3] jwt_free_fixed[OF s4])
  then show ?thesis by (simp only: redact_unfold[of t])
qed

end
